theory Spec2Isabelle
  imports Main "HOL-Library.Sublist"
begin

section \<open>Formula Resolver: \<open>clean_calculation_formula\<close>\<close>

text \<open>
  Python strings are modelled as \<open>string\<close> (lists of \<open>char\<close>, code points below 256).
  On these the regular-expression class \<open>\d\<close> is exactly the ten ASCII digits.
\<close>

definition is_digit :: "char \<Rightarrow> bool" where
  "is_digit c = (c \<in> set ''0123456789'')"

fun strip_prefix :: "string \<Rightarrow> string \<Rightarrow> string option" where
  "strip_prefix [] s = Some s"
| "strip_prefix (p # ps) [] = None"
| "strip_prefix (p # ps) (c # cs) = (if p = c then strip_prefix ps cs else None)"

text \<open>
  One attempt of the regex engine to match, at the start of \<open>s\<close>, a pattern of the shape
  literal prefix, then a greedy run of at least \<open>n\<close> digits (the capture group), then the
  closing character \<open>cl\<close>. The three patterns of the source have this shape:
  \<^verbatim>\<open>\[Calculation_(\d+)\]\<close>, \<^verbatim>\<open>@\{(\d+)\}\<close> and \<^verbatim>\<open>\[(\d{10,})\]\<close>. The closing character
  is never a digit, so backtracking into the greedy run cannot succeed and the run is the
  maximal one. The result is the captured group and the text after the match.
\<close>

definition match_token :: "string \<Rightarrow> nat \<Rightarrow> char \<Rightarrow> string \<Rightarrow> (string \<times> string) option" where
  "match_token pre n cl s =
     (case strip_prefix pre s of
        None \<Rightarrow> None
      | Some t \<Rightarrow>
          (let ds = takeWhile is_digit t; r = dropWhile is_digit t in
           if n \<le> length ds
           then (case r of [] \<Rightarrow> None
                 | c # rest \<Rightarrow> if c = cl then Some (ds, rest) else None)
           else None))"

definition calc_pattern :: "string \<Rightarrow> (string \<times> string) option" where
  "calc_pattern = match_token ''[Calculation_'' 1 (CHR '']'')"

definition at_pattern :: "string \<Rightarrow> (string \<times> string) option" where
  "at_pattern = match_token (CHR ''@'' # ''{'') 1 (CHR ''}'')"

definition direct_id_pattern :: "string \<Rightarrow> (string \<times> string) option" where
  "direct_id_pattern = match_token ''['' 10 (CHR '']'')"

text \<open>Prepending an emitted piece to the output of the rest of a substitution pass.\<close>

fun emit :: "string \<Rightarrow> string \<times> nat \<Rightarrow> string \<times> nat" where
  "emit piece (out, cnt) = (piece @ out, cnt)"

lemma strip_prefix_Some: "strip_prefix p s = Some t \<longleftrightarrow> s = p @ t"
  by (induction p s rule: strip_prefix.induct) auto

lemma match_token_shorter:
  assumes "match_token pre n cl s = Some (ds, rest)"
  shows "length rest < length s"
proof -
  from assms obtain t where t: "strip_prefix pre s = Some t"
    by (auto simp: match_token_def split: option.splits)
  with assms have "dropWhile is_digit t = cl # rest"
    by (auto simp: match_token_def Let_def split: list.splits if_splits)
  then have "length rest < length (dropWhile is_digit t)" by simp
  also have "\<dots> \<le> length t" by (rule length_dropWhile_le)
  also have "\<dots> \<le> length s" using t by (simp add: strip_prefix_Some)
  finally show ?thesis .
qed

text \<open>
  \<open>re.sub(pattern, replace, s)\<close> with the replacement callbacks of the source
  (\<open>replace_calc_id\<close>, \<open>replace_at_id\<close>, \<open>replace_direct_id\<close>, which are the same function):
  scan left to right; where the pattern matches, the callback returns \<open>[caption]\<close> and
  increments the shared counter \<open>replacements_made\<close> when the captured id is a key of
  \<open>calc_map\<close>, and returns the matched text (\<open>match.group(0)\<close>) otherwise; the scan resumes
  after the match. Where it does not match, the character is copied. The counter is
  threaded through as state.
\<close>

function re_sub :: "string \<Rightarrow> nat \<Rightarrow> char \<Rightarrow> (string \<rightharpoonup> string) \<Rightarrow> string \<Rightarrow> nat \<Rightarrow> string \<times> nat" where
  "re_sub pre n cl calc_map [] cnt = ([], cnt)"
| "re_sub pre n cl calc_map (c # cs) cnt =
     (case match_token pre n cl (c # cs) of
        None \<Rightarrow> emit [c] (re_sub pre n cl calc_map cs cnt)
      | Some (calc_id, rest) \<Rightarrow>
          (case calc_map calc_id of
             Some caption \<Rightarrow>
               emit (''['' @ caption @ '']'') (re_sub pre n cl calc_map rest (cnt + 1))
           | None \<Rightarrow>
               emit (pre @ calc_id @ [cl]) (re_sub pre n cl calc_map rest cnt)))"
  by pat_completeness auto
termination
  by (relation "measure (\<lambda>(pre, n, cl, calc_map, s, cnt). length s)")
     (auto dest: match_token_shorter)

text \<open>
  \<open>re.search\<close> of the alternation \<^verbatim>\<open>\[Calculation_\d+\]|\[\d{10,}\]|@\{\d+\}\<close>: the
  alternatives are tried, in this order, at every position from left to right.
\<close>

definition ref_here :: "string \<Rightarrow> bool" where
  "ref_here s = (calc_pattern s \<noteq> None \<or> direct_id_pattern s \<noteq> None \<or> at_pattern s \<noteq> None)"

fun re_search :: "string \<Rightarrow> bool" where
  "re_search [] = ref_here []"
| "re_search (c # cs) = (ref_here (c # cs) \<or> re_search cs)"

text \<open>
  The three substitution passes of the source, in its order, each scanning the output of
  the one before, with the counter \<open>replacements_made\<close> carried from pass to pass.
\<close>

definition clean_passes :: "string \<Rightarrow> (string \<rightharpoonup> string) \<Rightarrow> string \<times> nat" where
  "clean_passes raw_formula calc_map =
     (let (cleaned, replacements_made) =
            re_sub ''[Calculation_'' 1 (CHR '']'') calc_map raw_formula 0;
          (cleaned, replacements_made) =
            re_sub (CHR ''@'' # ''{'') 1 (CHR ''}'') calc_map cleaned replacements_made;
          (cleaned, replacements_made) =
            re_sub ''['' 10 (CHR '']'') calc_map cleaned replacements_made
      in (cleaned, replacements_made))"

text \<open>
  \<open>clean_calculation_formula(raw_formula, calc_map)\<close>. The status starts as \<open>Success\<close>
  and is overwritten by the two checks, in the order of the source. No operation of the
  \<open>try\<close> block can raise on a string and a dictionary of strings, so the \<open>except\<close> branch
  has no counterpart here.
\<close>

definition clean_calculation_formula :: "string \<Rightarrow> (string \<rightharpoonup> string) \<Rightarrow> string \<times> string" where
  "clean_calculation_formula raw_formula calc_map =
     (if raw_formula = [] then (raw_formula, ''No Formula'')
      else
        let (cleaned, replacements_made) = clean_passes raw_formula calc_map;
            status = ''Success'';
            status = (if replacements_made = 0 \<and> re_search raw_formula
                      then ''Unresolved References'' else status);
            status = (if 0 < replacements_made \<and> re_search cleaned
                      then ''Partially Resolved'' else status)
        in (cleaned, status))"

text \<open>
  The reference syntaxes as the specification words them: \<open>[Calculation_<digits>]\<close>,
  \<open>@\<close> followed by \<open>{<digits>}\<close>, and \<open>[<digits with length >= 10>]\<close>; a string matches when one of them
  occurs in it.
\<close>

definition spec_reference :: "string \<Rightarrow> bool" where
  "spec_reference t =
     (\<exists>ds. list_all is_digit ds \<and>
        ((ds \<noteq> [] \<and> t = ''[Calculation_'' @ ds @ '']'') \<or>
         (ds \<noteq> [] \<and> t = (CHR ''@'' # ''{'') @ ds @ ''}'') \<or>
         (10 \<le> length ds \<and> t = ''['' @ ds @ '']'')))"

definition spec_matches :: "string \<Rightarrow> bool" where
  "spec_matches s = (\<exists>p t r. s = p @ t @ r \<and> spec_reference t)"

section \<open>The intermediate model\<close>

text \<open>
  The dictionaries with fixed keys that the source builds are records. Record fields whose
  source key is an Isabelle keyword or clashes with another name carry a prefix
  (\<open>data_fields\<close> is the key \<open>fields\<close>, \<open>data_type\<close> the key \<open>datatype\<close>).
\<close>

record field =
  name :: string
  caption :: string
  data_type :: string
  role :: string
  datasource :: string
  formula :: string
  field_type :: string

record usage =
  usage_field :: string
  usage_worksheet :: string
  usage_datasource :: string

record connection =
  conn_info_name :: string
  conn_info_alias :: string
  conn_info_class :: string

record data =
  data_fields :: "field list"
  calculations :: "string \<rightharpoonup> string"
  field_worksheet_usage :: "usage list"
  connections :: "string \<rightharpoonup> connection"

record output_row =
  Column_ID :: int
  Column_Name :: string
  Column_Alias :: string
  Field_Type :: string
  Connection_Name :: string
  Connection_Alias :: string
  row_datatype :: string
  row_role :: string
  Calculation_Formula :: string
  Original_Calculation :: string
  Calc_Clean_Status :: string
  Field_Used_in_Worksheets :: string
  Worksheet_Name :: string
  File_Name :: string

section \<open>Metadata Extractor: \<open>extract_all_data\<close>\<close>

text \<open>
  The parsed document: an element has a tag, its attribute dictionary, its text (absent or
  a string) and its children in document order.
\<close>

datatype element =
  Element (tag: string) (attrib: "string \<rightharpoonup> string") (elem_text: "string option")
    (children: "element list")

text \<open>
  The descendants of an element in document order, the element itself excluded: what the
  path \<open>.//tag\<close> ranges over. \<open>findall\<close> keeps those with the given tag, \<open>find_first\<close> is
  \<open>Element.find\<close> (the first of them, or nothing), \<open>get\<close> is \<open>Element.get\<close> with a default.
\<close>

fun descendants :: "element \<Rightarrow> element list" where
  "descendants (Element t a x cs) = concat (map (\<lambda>c. c # descendants c) cs)"

definition findall :: "element \<Rightarrow> string \<Rightarrow> element list" where
  "findall e tg = filter (\<lambda>x. tag x = tg) (descendants e)"

definition find_first :: "element \<Rightarrow> string \<Rightarrow> element option" where
  "find_first e tg = (case findall e tg of [] \<Rightarrow> None | x # _ \<Rightarrow> Some x)"

definition get :: "element \<Rightarrow> string \<Rightarrow> string \<Rightarrow> string" where
  "get e key dflt = (case attrib e key of None \<Rightarrow> dflt | Some v \<Rightarrow> v)"

text \<open>The substring test \<open>sub in s\<close> of Python.\<close>

fun is_substring :: "string \<Rightarrow> string \<Rightarrow> bool" where
  "is_substring sub [] = (sub = [])"
| "is_substring sub (c # cs) = (strip_prefix sub (c # cs) \<noteq> None \<or> is_substring sub cs)"

text \<open>First pass: the calculation id to caption mapping, from columns and from calculations.\<close>

definition calc_from_column :: "element \<Rightarrow> (string \<rightharpoonup> string) \<Rightarrow> (string \<rightharpoonup> string)" where
  "calc_from_column col calc_id_to_caption =
     (case find_first col ''calculation'' of
        None \<Rightarrow> calc_id_to_caption
      | Some calc_elem \<Rightarrow>
          let calc_id = get calc_elem ''id'' '''' in
          if calc_id \<noteq> [] then
            let caption = get col ''caption'' (get col ''name'' '''') in
            if caption \<noteq> [] then calc_id_to_caption(calc_id \<mapsto> caption)
            else calc_id_to_caption
          else calc_id_to_caption)"

definition calc_from_calculation :: "element \<Rightarrow> (string \<rightharpoonup> string) \<Rightarrow> (string \<rightharpoonup> string)" where
  "calc_from_calculation calc calc_id_to_caption =
     (let calc_id = get calc ''id'' '''' in
      if calc_id \<noteq> [] then
        let caption = get calc ''caption'' (get calc ''name'' '''') in
        if caption \<noteq> [] then calc_id_to_caption(calc_id \<mapsto> caption)
        else calc_id_to_caption
      else calc_id_to_caption)"

text \<open>
  The body of the loop over the columns of a datasource: the field type is derived, the
  calculation mapping of the model is extended, and the field appended.
\<close>

definition column_step :: "string \<Rightarrow> element \<Rightarrow> data \<Rightarrow> data" where
  "column_step ds_name col d =
     (let field_name = get col ''name'' '''';
          field_caption = get col ''caption'' field_name;
          calc_elem = find_first col ''calculation'';
          formula = '''';
          field_type = ''Dimension'';
          (formula, field_type, d) =
            (case calc_elem of
               Some calc_elem \<Rightarrow>
                 let formula = get calc_elem ''formula'' '''';
                     field_type = ''Calculated Field'';
                     calc_class = get calc_elem ''class'' '''';
                     field_type = (if is_substring ''tableau'' calc_class
                                   then ''Table Calculation'' else field_type);
                     calc_id = get calc_elem ''id'' '''';
                     d = (if calc_id \<noteq> [] \<and> field_caption \<noteq> []
                          then d\<lparr>calculations := (calculations d)(calc_id \<mapsto> field_caption)\<rparr>
                          else d)
                 in (formula, field_type, d)
             | None \<Rightarrow>
                 if attrib col ''role'' = Some ''measure'' then
                   let field_type = ''Measure'';
                       field_type = (if (case attrib col ''aggregation'' of
                                           None \<Rightarrow> False | Some a \<Rightarrow> a \<noteq> [])
                                     then ''Aggregated Measure'' else field_type)
                   in (formula, field_type, d)
                 else (formula, field_type, d))
      in d\<lparr>data_fields := data_fields d @
           [\<lparr>name = field_name,
             caption = field_caption,
             data_type = get col ''datatype'' '''',
             role = get col ''role'' '''',
             datasource = ds_name,
             formula = formula,
             field_type = field_type\<rparr>]\<rparr>)"

text \<open>The body of the loop over the datasources.\<close>

definition datasource_step :: "element \<Rightarrow> data \<Rightarrow> data" where
  "datasource_step ds d =
     (let ds_name = get ds ''name'' '''';
          ds_caption = get ds ''caption'' ds_name;
          d = (case find_first ds ''connection'' of
                 None \<Rightarrow> d
               | Some conn \<Rightarrow>
                   let conn_class = get conn ''class'' '''';
                       conn_name = get conn ''server''
                                     (get conn ''filename'' (get conn ''database'' ''''))
                   in d\<lparr>connections := (connections d)(ds_name \<mapsto>
                          \<lparr>conn_info_name = conn_name,
                           conn_info_alias = ds_caption,
                           conn_info_class = conn_class\<rparr>)\<rparr>)
      in fold (column_step ds_name) (findall ds ''column'') d)"

text \<open>The body of the loop over the standalone calculations.\<close>

definition standalone_step :: "element \<Rightarrow> data \<Rightarrow> data" where
  "standalone_step calc d =
     (let calc_name = get calc ''name'' '''';
          calc_caption = get calc ''caption'' calc_name;
          formula = get calc ''formula'' ''''
      in if calc_name \<noteq> [] \<and> \<not> list_ex (\<lambda>f. name f = calc_name) (data_fields d)
         then d\<lparr>data_fields := data_fields d @
                [\<lparr>name = calc_name,
                  caption = calc_caption,
                  data_type = get calc ''datatype'' '''',
                  role = get calc ''role'' '''',
                  datasource = '''',
                  formula = formula,
                  field_type = ''Calculated Field''\<rparr>]\<rparr>
         else d)"

text \<open>The usage pass: dependency columns, then encoding columns, of every worksheet.\<close>

definition dependency_column_step :: "string \<Rightarrow> string \<Rightarrow> element \<Rightarrow> data \<Rightarrow> data" where
  "dependency_column_step ws_name ds_name col d =
     (let field_name = get col ''name'' '''' in
      if field_name \<noteq> []
      then d\<lparr>field_worksheet_usage := field_worksheet_usage d @
             [\<lparr>usage_field = field_name, usage_worksheet = ws_name,
               usage_datasource = ds_name\<rparr>]\<rparr>
      else d)"

definition dependency_step :: "string \<Rightarrow> element \<Rightarrow> data \<Rightarrow> data" where
  "dependency_step ws_name dep d =
     (let ds_name = get dep ''datasource'' ''''
      in fold (dependency_column_step ws_name ds_name) (findall dep ''column'') d)"

definition encoding_column_step :: "string \<Rightarrow> element \<Rightarrow> data \<Rightarrow> data" where
  "encoding_column_step ws_name enc_col d =
     (let field_ref = (case elem_text enc_col of
                         None \<Rightarrow> get enc_col ''column'' ''''
                       | Some t \<Rightarrow> if t \<noteq> [] then t else get enc_col ''column'' '''')
      in if field_ref \<noteq> [] then
           let field_ref = (if hd field_ref = CHR ''['' \<and> last field_ref = CHR '']''
                            then butlast (tl field_ref) else field_ref)
           in d\<lparr>field_worksheet_usage := field_worksheet_usage d @
                [\<lparr>usage_field = field_ref, usage_worksheet = ws_name,
                  usage_datasource = ''''\<rparr>]\<rparr>
         else d)"

definition worksheet_step :: "element \<Rightarrow> data \<Rightarrow> data" where
  "worksheet_step ws d =
     (let ws_name = get ws ''name'' '''';
          d = fold (dependency_step ws_name) (findall ws ''datasource-dependencies'') d
      in fold (encoding_column_step ws_name)
           (concat (map (\<lambda>enc. findall enc ''column'') (findall ws ''encoding''))) d)"

text \<open>The deduplication loop: the state is the set \<open>seen\<close> and the list \<open>unique_usage\<close>.\<close>

definition dedup_step ::
  "usage \<Rightarrow> (string \<times> string) set \<times> usage list \<Rightarrow> (string \<times> string) set \<times> usage list" where
  "dedup_step u st =
     (case st of (seen, unique_usage) \<Rightarrow>
        let key = (usage_field u, usage_worksheet u) in
        if key \<notin> seen then (insert key seen, unique_usage @ [u])
        else (seen, unique_usage))"

text \<open>
  \<open>extract_all_data\<close>, in two parts: everything up to the usage pass, and the
  deduplication of the collected usage list.
\<close>

definition collect_all_data :: "element \<Rightarrow> string \<Rightarrow> data" where
  "collect_all_data root filename =
     (let d = \<lparr>data_fields = [], calculations = Map.empty, field_worksheet_usage = [],
               connections = Map.empty\<rparr>;
          calc_id_to_caption = fold calc_from_column (findall root ''column'') Map.empty;
          calc_id_to_caption =
            fold calc_from_calculation (findall root ''calculation'') calc_id_to_caption;
          d = d\<lparr>calculations := calc_id_to_caption\<rparr>;
          d = fold datasource_step (findall root ''datasource'') d;
          d = fold standalone_step (findall root ''calculation'') d
      in fold worksheet_step (findall root ''worksheet'') d)"

definition extract_all_data :: "element \<Rightarrow> string \<Rightarrow> data" where
  "extract_all_data root filename =
     (let d = collect_all_data root filename;
          (seen, unique_usage) = fold dedup_step (field_worksheet_usage d) ({}, [])
      in d\<lparr>field_worksheet_usage := unique_usage\<rparr>)"

section \<open>Row Builder: \<open>build_final_output\<close>\<close>

text \<open>
  One iteration of the loop that groups the usage list by field name: a missing key is
  first bound to the empty list, then the worksheet is appended.
\<close>

definition usage_step :: "usage \<Rightarrow> (string \<rightharpoonup> string list) \<Rightarrow> (string \<rightharpoonup> string list)" where
  "usage_step u usage_by_field =
     (let fld = usage_field u;
          usage_by_field = (if fld \<notin> dom usage_by_field
                            then usage_by_field(fld \<mapsto> []) else usage_by_field)
      in case usage_by_field fld of
           None \<Rightarrow> usage_by_field
         | Some ws \<Rightarrow> usage_by_field(fld \<mapsto> ws @ [usage_worksheet u]))"

text \<open>
  The body of the innermost loop (one worksheet of one field): the row is appended and the
  counter \<open>column_id\<close> incremented. The state is the pair of \<open>final_rows\<close> and \<open>column_id\<close>.
\<close>

definition emit_row ::
  "string \<Rightarrow> field \<Rightarrow> string \<Rightarrow> string \<Rightarrow> string \<Rightarrow> string \<Rightarrow> string \<Rightarrow> string \<Rightarrow>
   output_row list \<times> int \<Rightarrow> output_row list \<times> int" where
  "emit_row filename fld conn_name conn_alias cleaned_formula original_formula clean_status
     worksheet st =
     (case st of (final_rows, column_id) \<Rightarrow>
        let field_used = (if worksheet \<noteq> [] then ''Yes'' else ''No'') in
        (final_rows @
           [\<lparr>Column_ID = column_id,
             Column_Name = name fld,
             Column_Alias = caption fld,
             Field_Type = field_type fld,
             Connection_Name = conn_name,
             Connection_Alias = conn_alias,
             row_datatype = data_type fld,
             row_role = role fld,
             Calculation_Formula = cleaned_formula,
             Original_Calculation = original_formula,
             Calc_Clean_Status = clean_status,
             Field_Used_in_Worksheets = field_used,
             Worksheet_Name = worksheet,
             File_Name = filename\<rparr>],
         column_id + 1))"

text \<open>The body of the loop over the fields of one workbook.\<close>

definition process_field ::
  "string \<Rightarrow> data \<Rightarrow> (string \<rightharpoonup> string list) \<Rightarrow> field \<Rightarrow>
   output_row list \<times> int \<Rightarrow> output_row list \<times> int" where
  "process_field filename d usage_by_field fld st =
     (let calc_map = calculations d;
          field_name = name fld;
          worksheets = (case usage_by_field field_name of None \<Rightarrow> [''''] | Some ws \<Rightarrow> ws);
          conn_info = connections d (datasource fld);
          conn_name = (case conn_info of None \<Rightarrow> '''' | Some c \<Rightarrow> conn_info_name c);
          conn_alias = (case conn_info of None \<Rightarrow> datasource fld | Some c \<Rightarrow> conn_info_alias c);
          original_formula = formula fld;
          (cleaned_formula, clean_status) =
             (if original_formula \<noteq> []
              then clean_calculation_formula original_formula calc_map
              else ('''', ''No Calculation''));
          worksheets = (if worksheets = [] then [''''] else worksheets)
      in fold (emit_row filename fld conn_name conn_alias cleaned_formula original_formula
                 clean_status) worksheets st)"

text \<open>The body of the loop over the workbooks, and the whole function.\<close>

definition process_workbook ::
  "string \<times> data \<Rightarrow> output_row list \<times> int \<Rightarrow> output_row list \<times> int" where
  "process_workbook wb st =
     (case wb of (filename, d) \<Rightarrow>
        let usage_by_field = fold usage_step (field_worksheet_usage d) Map.empty
        in fold (process_field filename d usage_by_field) (data_fields d) st)"

text \<open>
  \<open>all_workbook_data\<close> is a dictionary iterated in insertion order: an association list
  of file name and intermediate model.
\<close>

definition build_final_output :: "(string \<times> data) list \<Rightarrow> output_row list" where
  "build_final_output all_workbook_data = fst (fold process_workbook all_workbook_data ([], 1))"

subsection \<open>The regex scanners against the specification's reference syntaxes\<close>

lemma match_token_iff:
  assumes "\<not> is_digit cl"
  shows "match_token pre n cl s = Some (ds, rest) \<longleftrightarrow>
         s = pre @ ds @ cl # rest \<and> list_all is_digit ds \<and> n \<le> length ds"
proof
  assume m: "match_token pre n cl s = Some (ds, rest)"
  then obtain t where t: "s = pre @ t"
    by (auto simp: match_token_def strip_prefix_Some split: option.splits)
  then have sp: "strip_prefix pre s = Some t" by (simp add: strip_prefix_Some)
  from m sp have ds: "ds = takeWhile is_digit t" and n: "n \<le> length ds"
    and r: "dropWhile is_digit t = cl # rest"
    by (auto simp: match_token_def Let_def split: list.splits if_splits)
  have "t = takeWhile is_digit t @ dropWhile is_digit t" by simp
  with ds r have "t = ds @ cl # rest" by simp
  moreover have "list_all is_digit ds" unfolding ds list_all_iff
    by (auto dest: set_takeWhileD)
  ultimately show "s = pre @ ds @ cl # rest \<and> list_all is_digit ds \<and> n \<le> length ds"
    using t n by simp
next
  assume a: "s = pre @ ds @ cl # rest \<and> list_all is_digit ds \<and> n \<le> length ds"
  then have sp: "strip_prefix pre s = Some (ds @ cl # rest)" by (simp add: strip_prefix_Some)
  from a have alld: "\<And>x. x \<in> set ds \<Longrightarrow> is_digit x" by (simp add: list_all_iff)
  have tw: "takeWhile is_digit (ds @ cl # rest) = ds"
    using alld assms by simp
  have dw: "dropWhile is_digit (ds @ cl # rest) = cl # rest"
    using alld assms by simp
  show "match_token pre n cl s = Some (ds, rest)"
    using a sp tw dw by (simp add: match_token_def)
qed

lemma not_digit_close [simp]: "\<not> is_digit (CHR '']'')" "\<not> is_digit (CHR ''}'')"
  by (simp_all add: is_digit_def)

lemma calc_pattern_iff:
  "calc_pattern s = Some (ds, rest) \<longleftrightarrow>
   s = ''[Calculation_'' @ ds @ '']'' @ rest \<and> list_all is_digit ds \<and> ds \<noteq> []"
  unfolding calc_pattern_def by (subst match_token_iff) (auto simp: Suc_le_eq)

lemma at_pattern_iff:
  "at_pattern s = Some (ds, rest) \<longleftrightarrow>
   s = (CHR ''@'' # ''{'') @ ds @ ''}'' @ rest \<and> list_all is_digit ds \<and> ds \<noteq> []"
  unfolding at_pattern_def by (subst match_token_iff) (auto simp: Suc_le_eq)

lemma direct_id_pattern_iff:
  "direct_id_pattern s = Some (ds, rest) \<longleftrightarrow>
   s = ''['' @ ds @ '']'' @ rest \<and> list_all is_digit ds \<and> 10 \<le> length ds"
  unfolding direct_id_pattern_def by (subst match_token_iff) auto

lemma ref_here_iff: "ref_here s \<longleftrightarrow> (\<exists>t r. s = t @ r \<and> spec_reference t)"
proof
  assume "ref_here s"
  then consider ds rest where "calc_pattern s = Some (ds, rest)"
    | ds rest where "direct_id_pattern s = Some (ds, rest)"
    | ds rest where "at_pattern s = Some (ds, rest)"
    unfolding ref_here_def by auto
  then show "\<exists>t r. s = t @ r \<and> spec_reference t"
  proof cases
    case 1
    then have "s = (''[Calculation_'' @ ds @ '']'') @ rest"
      and "spec_reference (''[Calculation_'' @ ds @ '']'')"
      unfolding spec_reference_def calc_pattern_iff by auto
    then show ?thesis by blast
  next
    case 2
    then have "s = (''['' @ ds @ '']'') @ rest" and "spec_reference (''['' @ ds @ '']'')"
      unfolding spec_reference_def direct_id_pattern_iff by auto
    then show ?thesis by blast
  next
    case 3
    then have "s = ((CHR ''@'' # ''{'') @ ds @ ''}'') @ rest" and "spec_reference ((CHR ''@'' # ''{'') @ ds @ ''}'')"
      unfolding spec_reference_def at_pattern_iff by auto
    then show ?thesis by blast
  qed
next
  assume "\<exists>t r. s = t @ r \<and> spec_reference t"
  then obtain t r ds where s: "s = t @ r" and d: "list_all is_digit ds"
    and t: "(ds \<noteq> [] \<and> t = ''[Calculation_'' @ ds @ '']'') \<or>
            (ds \<noteq> [] \<and> t = (CHR ''@'' # ''{'') @ ds @ ''}'') \<or>
            (10 \<le> length ds \<and> t = ''['' @ ds @ '']'')"
    unfolding spec_reference_def by blast
  from t show "ref_here s"
  proof (elim disjE conjE)
    assume "ds \<noteq> []" "t = ''[Calculation_'' @ ds @ '']''"
    with s d have "calc_pattern s = Some (ds, r)" by (simp add: calc_pattern_iff)
    then show ?thesis by (simp add: ref_here_def)
  next
    assume "ds \<noteq> []" "t = (CHR ''@'' # ''{'') @ ds @ ''}''"
    with s d have "at_pattern s = Some (ds, r)" by (simp add: at_pattern_iff)
    then show ?thesis by (simp add: ref_here_def)
  next
    assume "10 \<le> length ds" "t = ''['' @ ds @ '']''"
    with s d have "direct_id_pattern s = Some (ds, r)" by (simp add: direct_id_pattern_iff)
    then show ?thesis by (simp add: ref_here_def)
  qed
qed

lemma spec_reference_nonempty: "spec_reference t \<Longrightarrow> t \<noteq> []"
  by (auto simp: spec_reference_def)

lemma spec_matches_Nil: "\<not> spec_matches []"
  by (auto simp: spec_matches_def dest: spec_reference_nonempty)

lemma spec_matches_Cons:
  "spec_matches (c # cs) \<longleftrightarrow> (\<exists>t r. c # cs = t @ r \<and> spec_reference t) \<or> spec_matches cs"
proof
  assume "spec_matches (c # cs)"
  then obtain p t r where s: "c # cs = p @ t @ r" and t: "spec_reference t"
    unfolding spec_matches_def by blast
  show "(\<exists>t r. c # cs = t @ r \<and> spec_reference t) \<or> spec_matches cs"
  proof (cases p)
    case Nil
    with s t show ?thesis by auto
  next
    case (Cons a p')
    with s have "cs = p' @ t @ r" by simp
    with t show ?thesis unfolding spec_matches_def by blast
  qed
next
  assume "(\<exists>t r. c # cs = t @ r \<and> spec_reference t) \<or> spec_matches cs"
  then show "spec_matches (c # cs)"
  proof
    assume "\<exists>t r. c # cs = t @ r \<and> spec_reference t"
    then obtain t r where "c # cs = [] @ t @ r" "spec_reference t" by auto
    then show ?thesis unfolding spec_matches_def by blast
  next
    assume "spec_matches cs"
    then obtain p t r where "cs = p @ t @ r" "spec_reference t"
      unfolding spec_matches_def by blast
    then have "c # cs = (c # p) @ t @ r" by simp
    with \<open>spec_reference t\<close> show ?thesis unfolding spec_matches_def by blast
  qed
qed

lemma re_search_iff: "re_search s \<longleftrightarrow> spec_matches s"
proof (induction s)
  case Nil
  have "\<not> ref_here []" by (auto simp: ref_here_iff dest: spec_reference_nonempty)
  then show ?case by (simp add: spec_matches_Nil)
next
  case (Cons c cs)
  then show ?case by (simp add: spec_matches_Cons ref_here_iff)
qed

text \<open>
  C1. For every raw formula and calculation map, the status returned by
  \<open>clean_calculation_formula\<close> is: \<open>No Formula\<close>, with the formula returned unchanged,
  when the raw formula is empty; otherwise \<open>Unresolved References\<close> when the counter of
  substitutions is zero and the original string contains one of the three reference
  syntaxes; \<open>Partially Resolved\<close> when at least one substitution was made and the cleaned
  string still contains one of them; and \<open>Success\<close> in every other case.
\<close>

theorem clean_calculation_formula_status:
  "clean_calculation_formula raw calc_map =
     (if raw = [] then (raw, ''No Formula'')
      else (fst (clean_passes raw calc_map),
            if snd (clean_passes raw calc_map) = 0 \<and> spec_matches raw
            then ''Unresolved References''
            else if 0 < snd (clean_passes raw calc_map) \<and>
                    spec_matches (fst (clean_passes raw calc_map))
            then ''Partially Resolved''
            else ''Success''))"
  by (simp add: clean_calculation_formula_def re_search_iff split: prod.splits)

theorem clean_calculation_formula_status_witness:
  "clean_calculation_formula (CHR ''@'' # ''{2001}'') Map.empty = ((CHR ''@'' # ''{2001}''), ''Unresolved References'') \<and>
   snd (clean_passes (CHR ''@'' # ''{2001}'') Map.empty) = 0 \<and> spec_matches (CHR ''@'' # ''{2001}'')"
  using clean_calculation_formula_status [of "CHR ''@'' # ''{2001}''" Map.empty]
  by (simp add: re_search_iff [symmetric] clean_passes_def match_token_def is_digit_def
      ref_here_def calc_pattern_def at_pattern_def direct_id_pattern_def)

section \<open>Properties of the Row Builder\<close>

text \<open>
  The worksheets a field is emitted for: the worksheets of the usage entries that carry its
  name, in the order of the usage list, or the single empty worksheet when there is none.
\<close>

definition field_worksheets :: "data \<Rightarrow> string \<Rightarrow> string list" where
  "field_worksheets d nm =
     (let ws = map usage_worksheet (filter (\<lambda>u. usage_field u = nm) (field_worksheet_usage d))
      in if ws = [] then [''''] else ws)"

text \<open>The row emitted for a field and a worksheet, as a function of the identifier it gets.\<close>

definition row_of :: "string \<Rightarrow> data \<Rightarrow> field \<Rightarrow> string \<Rightarrow> int \<Rightarrow> output_row" where
  "row_of filename d fld worksheet column_id =
     \<lparr>Column_ID = column_id,
      Column_Name = name fld,
      Column_Alias = caption fld,
      Field_Type = field_type fld,
      Connection_Name =
        (case connections d (datasource fld) of None \<Rightarrow> '''' | Some c \<Rightarrow> conn_info_name c),
      Connection_Alias =
        (case connections d (datasource fld) of None \<Rightarrow> datasource fld
         | Some c \<Rightarrow> conn_info_alias c),
      row_datatype = data_type fld,
      row_role = role fld,
      Calculation_Formula =
        (if formula fld \<noteq> [] then fst (clean_calculation_formula (formula fld) (calculations d))
         else ''''),
      Original_Calculation = formula fld,
      Calc_Clean_Status =
        (if formula fld \<noteq> [] then snd (clean_calculation_formula (formula fld) (calculations d))
         else ''No Calculation''),
      Field_Used_in_Worksheets = (if worksheet \<noteq> [] then ''Yes'' else ''No''),
      Worksheet_Name = worksheet,
      File_Name = filename\<rparr>"

text \<open>Numbering a sequence of rows consecutively from a starting identifier.\<close>

fun number_rows :: "(int \<Rightarrow> output_row) list \<Rightarrow> int \<Rightarrow> output_row list" where
  "number_rows [] column_id = []"
| "number_rows (g # gs) column_id = g column_id # number_rows gs (column_id + 1)"

definition field_plan :: "string \<Rightarrow> data \<Rightarrow> field \<Rightarrow> (int \<Rightarrow> output_row) list" where
  "field_plan filename d fld = map (row_of filename d fld) (field_worksheets d (name fld))"

definition workbook_plan :: "string \<times> data \<Rightarrow> (int \<Rightarrow> output_row) list" where
  "workbook_plan wb = (case wb of (filename, d) \<Rightarrow> concat (map (field_plan filename d) (data_fields d)))"

lemma number_rows_append:
  "number_rows (gs @ hs) c = number_rows gs c @ number_rows hs (c + int (length gs))"
  by (induction gs arbitrary: c) (auto simp: algebra_simps)

lemma length_number_rows [simp]: "length (number_rows gs c) = length gs"
  by (induction gs arbitrary: c) auto

lemma usage_step_lookup:
  "usage_step u m nm =
     (if usage_field u = nm
      then Some ((case m nm of None \<Rightarrow> [] | Some ws \<Rightarrow> ws) @ [usage_worksheet u])
      else m nm)"
  by (auto simp: usage_step_def Let_def dom_def split: option.splits)

lemma fold_usage_step_lookup:
  "fold usage_step us m nm =
     (let new = map usage_worksheet (filter (\<lambda>u. usage_field u = nm) us)
      in if new = [] then m nm
         else Some ((case m nm of None \<Rightarrow> [] | Some ws \<Rightarrow> ws) @ new))"
proof (induction us arbitrary: m)
  case Nil
  show ?case by simp
next
  case (Cons u us)
  have step: "usage_step u m nm =
     (if usage_field u = nm
      then Some ((case m nm of None \<Rightarrow> [] | Some ws \<Rightarrow> ws) @ [usage_worksheet u])
      else m nm)"
    by (rule usage_step_lookup)
  have "fold usage_step (u # us) m nm = fold usage_step us (usage_step u m) nm" by simp
  also have "\<dots> = (let new = map usage_worksheet (filter (\<lambda>u. usage_field u = nm) us)
      in if new = [] then usage_step u m nm
         else Some ((case usage_step u m nm of None \<Rightarrow> [] | Some ws \<Rightarrow> ws) @ new))"
    by (rule Cons.IH)
  also have "\<dots> = (let new = map usage_worksheet (filter (\<lambda>u. usage_field u = nm) (u # us))
      in if new = [] then m nm
         else Some ((case m nm of None \<Rightarrow> [] | Some ws \<Rightarrow> ws) @ new))"
    unfolding step by (simp add: Let_def)
  finally show ?case .
qed

lemma usage_by_field_worksheets:
  "(let ws = (case fold usage_step (field_worksheet_usage d) Map.empty nm of
                None \<Rightarrow> [''''] | Some ws \<Rightarrow> ws)
    in if ws = [] then [''''] else ws) = field_worksheets d nm"
  by (simp add: fold_usage_step_lookup field_worksheets_def Let_def)

lemma fold_emit_row:
  assumes "cn = (case connections d (datasource f) of None \<Rightarrow> '''' | Some c \<Rightarrow> conn_info_name c)"
    and "ca = (case connections d (datasource f) of None \<Rightarrow> datasource f
               | Some c \<Rightarrow> conn_info_alias c)"
    and "cf = (if formula f \<noteq> [] then fst (clean_calculation_formula (formula f) (calculations d))
               else '''')"
    and "cs = (if formula f \<noteq> [] then snd (clean_calculation_formula (formula f) (calculations d))
               else ''No Calculation'')"
  shows "fold (emit_row fn f cn ca cf (formula f) cs) ws (rows, c) =
           (rows @ number_rows (map (row_of fn d f) ws) c, c + int (length ws))"
proof (induction ws arbitrary: rows c)
  case Nil
  show ?case by simp
next
  case (Cons w ws)
  have step: "emit_row fn f cn ca cf (formula f) cs w (rows, c) = (rows @ [row_of fn d f w c], c + 1)"
    unfolding emit_row_def row_of_def assms by simp
  show ?case by (simp add: step Cons.IH)
qed

lemma process_field_eq:
  "process_field fn d (fold usage_step (field_worksheet_usage d) Map.empty) f (rows, c) =
     (rows @ number_rows (field_plan fn d f) c, c + int (length (field_plan fn d f)))"
proof -
  have ws: "(let ws = (case fold usage_step (field_worksheet_usage d) Map.empty (name f) of
                None \<Rightarrow> [''''] | Some ws \<Rightarrow> ws)
    in if ws = [] then [''''] else ws) = field_worksheets d (name f)"
    by (rule usage_by_field_worksheets)
  show ?thesis
    unfolding process_field_def field_plan_def
    using ws
    by (simp add: Let_def split_beta split del: if_split) (rule fold_emit_row; simp)
qed

lemma fold_process_field_eq:
  "fold (process_field fn d (fold usage_step (field_worksheet_usage d) Map.empty)) fs (rows, c) =
     (rows @ number_rows (concat (map (field_plan fn d) fs)) c,
      c + int (length (concat (map (field_plan fn d) fs))))"
proof (induction fs arbitrary: rows c)
  case Nil
  show ?case by simp
next
  case (Cons f fs)
  show ?case
    by (simp add: process_field_eq Cons.IH number_rows_append algebra_simps)
qed

lemma process_workbook_eq:
  "process_workbook wb (rows, c) =
     (rows @ number_rows (workbook_plan wb) c, c + int (length (workbook_plan wb)))"
  by (cases wb) (simp add: process_workbook_def workbook_plan_def fold_process_field_eq)

lemma fold_process_workbook_eq:
  "fold process_workbook wbs (rows, c) =
     (rows @ number_rows (concat (map workbook_plan wbs)) c,
      c + int (length (concat (map workbook_plan wbs))))"
proof (induction wbs arbitrary: rows c)
  case Nil
  show ?case by simp
next
  case (Cons wb wbs)
  show ?case
    by (simp add: process_workbook_eq Cons.IH number_rows_append algebra_simps)
qed

lemma build_final_output_plan:
  "build_final_output wbs = number_rows (concat (map workbook_plan wbs)) 1"
  by (simp add: build_final_output_def fold_process_workbook_eq)

text \<open>
  The rows appended to \<open>final_rows\<close> by the iteration of the field loop for \<open>fld\<close>, reached
  after the workbooks \<open>earlier\<close> and the fields \<open>fs\<close> of its own workbook have been processed.
\<close>

definition rows_emitted_for ::
  "(string \<times> data) list \<Rightarrow> string \<Rightarrow> data \<Rightarrow> field list \<Rightarrow> field \<Rightarrow> output_row list" where
  "rows_emitted_for earlier filename d fs fld =
     (let usage_by_field = fold usage_step (field_worksheet_usage d) Map.empty;
          st = fold process_workbook earlier ([], 1);
          st = fold (process_field filename d usage_by_field) fs st
      in drop (length (fst st)) (fst (process_field filename d usage_by_field fld st)))"

lemma rows_emitted_for_plan:
  "rows_emitted_for earlier fn d fs f =
     number_rows (field_plan fn d f)
       (1 + int (length (concat (map workbook_plan earlier))) +
        int (length (concat (map (field_plan fn d) fs))))"
  by (simp add: rows_emitted_for_def fold_process_workbook_eq fold_process_field_eq
      process_field_eq)

lemma rows_emitted_for_segment:
  assumes "data_fields d = fs1 @ f # fs2"
  shows "\<exists>before after. build_final_output (earlier @ (fn, d) # later) =
           before @ rows_emitted_for earlier fn d fs1 f @ after \<and>
           before = build_final_output (earlier @ [(fn, d\<lparr>data_fields := fs1\<rparr>)])"
proof -
  let ?c = "1 + int (length (concat (map workbook_plan earlier))) +
        int (length (concat (map (field_plan fn d) fs1)))"
  have "\<And>g. row_of fn (d\<lparr>data_fields := fs1\<rparr>) g = row_of fn d g"
    by (rule ext)+ (simp add: row_of_def)
  then have "field_plan fn (d\<lparr>data_fields := fs1\<rparr>) = field_plan fn d"
    by (intro ext) (simp add: field_plan_def field_worksheets_def)
  then have trunc: "workbook_plan (fn, d\<lparr>data_fields := fs1\<rparr>) = concat (map (field_plan fn d) fs1)"
    by (simp add: workbook_plan_def)
  have wp: "workbook_plan (fn, d) =
      concat (map (field_plan fn d) fs1) @ field_plan fn d f @ concat (map (field_plan fn d) fs2)"
    by (simp add: workbook_plan_def assms)
  have "build_final_output (earlier @ (fn, d) # later) =
      number_rows (concat (map workbook_plan earlier) @ concat (map (field_plan fn d) fs1)) 1 @
      number_rows (field_plan fn d f) ?c @
      number_rows (concat (map (field_plan fn d) fs2) @ concat (map workbook_plan later))
        (?c + int (length (field_plan fn d f)))"
    by (simp add: build_final_output_plan wp number_rows_append algebra_simps)
  moreover have "build_final_output (earlier @ [(fn, d\<lparr>data_fields := fs1\<rparr>)]) =
      number_rows (concat (map workbook_plan earlier) @ concat (map (field_plan fn d) fs1)) 1"
    by (simp add: build_final_output_plan trunc)
  ultimately show ?thesis
    by (simp add: rows_emitted_for_plan)
qed

lemma set_number_rows: "r \<in> set (number_rows gs c) \<Longrightarrow> \<exists>g \<in> set gs. \<exists>i. r = g i"
  by (induction gs arbitrary: c) auto

lemma map_number_rows:
  "(\<And>g i. g \<in> set gs \<Longrightarrow> h (g i) = k g) \<Longrightarrow> map h (number_rows gs c) = map k gs"
  by (induction gs arbitrary: c) auto

lemma Column_ID_number_rows:
  "(\<And>g i. g \<in> set gs \<Longrightarrow> Column_ID (g i) = i) \<Longrightarrow>
   map Column_ID (number_rows gs c) = [c..c + int (length gs) - 1]"
proof (induction gs arbitrary: c)
  case Nil
  show ?case by simp
next
  case (Cons g gs)
  have "map Column_ID (number_rows gs (c + 1)) = [c + 1..c + 1 + int (length gs) - 1]"
    by (rule Cons.IH) (simp add: Cons.prems)
  moreover have "Column_ID (g c) = c" by (simp add: Cons.prems)
  moreover have "[c..c + int (length (g # gs)) - 1] = c # [c + 1..c + 1 + int (length gs) - 1]"
    by (subst upto_rec1) (simp_all add: algebra_simps)
  ultimately show ?case by simp
qed

lemma workbook_plan_elems:
  "g \<in> set (workbook_plan (fn, d)) \<Longrightarrow>
   \<exists>f \<in> set (data_fields d). \<exists>w \<in> set (field_worksheets d (name f)). g = row_of fn d f w"
  by (auto simp: workbook_plan_def field_plan_def)

lemma plan_elems:
  "g \<in> set (concat (map workbook_plan wbs)) \<Longrightarrow>
   \<exists>wb \<in> set wbs. \<exists>f \<in> set (data_fields (snd wb)).
     \<exists>w \<in> set (field_worksheets (snd wb) (name f)). g = row_of (fst wb) (snd wb) f w"
proof -
  assume "g \<in> set (concat (map workbook_plan wbs))"
  then obtain wb where wb: "wb \<in> set wbs" and g: "g \<in> set (workbook_plan wb)" by auto
  from g have "g \<in> set (workbook_plan (fst wb, snd wb))" by simp
  from workbook_plan_elems [OF this] wb show ?thesis by blast
qed

text \<open>
  C3. For every collection of intermediate models, the \<open>Column ID\<close> values of the rows of
  \<open>build_final_output\<close> are exactly the sequence 1..N in emission order, N being the number
  of rows; and the rows are emitted in workbook order, then field order within the
  workbook, then worksheet order within the field.
\<close>

theorem column_ids_sequential:
  "map Column_ID (build_final_output wbs) = [1..int (length (build_final_output wbs))] \<and>
   map (\<lambda>r. (File_Name r, Column_Name r, Worksheet_Name r)) (build_final_output wbs) =
     concat (map (\<lambda>(fn, d).
       concat (map (\<lambda>f. map (\<lambda>w. (fn, name f, w)) (field_worksheets d (name f)))
         (data_fields d))) wbs)"
proof
  have "map Column_ID (number_rows (concat (map workbook_plan wbs)) 1) =
        [1..1 + int (length (concat (map workbook_plan wbs))) - 1]"
  proof (rule Column_ID_number_rows)
    fix g i
    assume "g \<in> set (concat (map workbook_plan wbs))"
    from plan_elems [OF this] show "Column_ID (g i) = i" by (auto simp: row_of_def)
  qed
  then show "map Column_ID (build_final_output wbs) = [1..int (length (build_final_output wbs))]"
    by (simp add: build_final_output_plan)
next
  let ?key = "\<lambda>r. (File_Name r, Column_Name r, Worksheet_Name r)"
  have "map ?key (number_rows (concat (map workbook_plan wbs)) 1) =
        map (\<lambda>g. ?key (g 0)) (concat (map workbook_plan wbs))"
  proof (rule map_number_rows)
    fix g i
    assume "g \<in> set (concat (map workbook_plan wbs))"
    from plan_elems [OF this] show "?key (g i) = ?key (g 0)" by (auto simp: row_of_def)
  qed
  also have "\<dots> = concat (map (\<lambda>(fn, d).
       concat (map (\<lambda>f. map (\<lambda>w. (fn, name f, w)) (field_worksheets d (name f)))
         (data_fields d))) wbs)"
    by (simp add: map_concat workbook_plan_def field_plan_def row_of_def comp_def case_prod_unfold)
  finally show "map ?key (build_final_output wbs) =
     concat (map (\<lambda>(fn, d).
       concat (map (\<lambda>f. map (\<lambda>w. (fn, name f, w)) (field_worksheets d (name f)))
         (data_fields d))) wbs)"
    by (simp add: build_final_output_plan)
qed

text \<open>
  A small intermediate model: one field without connection, used in worksheets A and B, and
  a usage entry for a field that was never extracted.
\<close>

definition example_field :: field where
  "example_field =
     \<lparr>name = ''[Sales]'', caption = ''Sales'', data_type = ''real'', role = ''measure'',
      datasource = ''ds1'', formula = '''', field_type = ''Measure''\<rparr>"

definition example_data :: data where
  "example_data =
     \<lparr>data_fields = [example_field],
      calculations = Map.empty,
      field_worksheet_usage =
        [\<lparr>usage_field = ''[Sales]'', usage_worksheet = ''A'', usage_datasource = ''ds1''\<rparr>,
         \<lparr>usage_field = ''[Ghost]'', usage_worksheet = ''A'', usage_datasource = ''ds1''\<rparr>,
         \<lparr>usage_field = ''[Sales]'', usage_worksheet = ''B'', usage_datasource = ''ds1''\<rparr>],
      connections = Map.empty\<rparr>"

lemma example_plan:
  "concat (map workbook_plan [(''w.twb'', example_data)]) =
     [row_of ''w.twb'' example_data example_field ''A'',
      row_of ''w.twb'' example_data example_field ''B'']"
  by (simp add: workbook_plan_def field_plan_def field_worksheets_def example_data_def
      example_field_def)

theorem column_ids_sequential_witness:
  "map Column_ID (build_final_output [(''w.twb'', example_data)]) = [1, 2] \<and>
   map (\<lambda>r. (File_Name r, Column_Name r, Worksheet_Name r))
     (build_final_output [(''w.twb'', example_data)]) =
     [(''w.twb'', ''[Sales]'', ''A''), (''w.twb'', ''[Sales]'', ''B'')]"
proof -
  have len: "length (build_final_output [(''w.twb'', example_data)]) = 2"
    by (simp only: build_final_output_plan example_plan) simp
  have ws: "field_worksheets example_data ''[Sales]'' = [''A'', ''B'']"
    by (simp add: field_worksheets_def example_data_def)
  have up: "[1..2] = [1, 2::int]" by (simp add: upto_rec1)
  show ?thesis
    using column_ids_sequential [of "[(''w.twb'', example_data)]"]
    by (simp add: len up) (simp add: example_data_def example_field_def field_worksheets_def)
qed

text \<open>
  C6. For every field of an intermediate model, the rows emitted at its turn are a segment
  of the final output. If no usage entry carries the field's name, the segment is exactly
  one row, with empty \<open>Worksheet Name\<close> and \<open>Field Used in Worksheets = No\<close>; if k >= 1
  entries do, it is exactly k rows, one per usage in order. Every such row is marked
  \<open>Yes\<close> exactly when its worksheet name is not empty.
\<close>

theorem rows_per_field:
  assumes "data_fields d = fs1 @ f # fs2"
  shows "(\<exists>before after.
            build_final_output (earlier @ (fn, d) # later) =
              before @ rows_emitted_for earlier fn d fs1 f @ after \<and>
            before = build_final_output (earlier @ [(fn, d\<lparr>data_fields := fs1\<rparr>)])) \<and>
         (let us = filter (\<lambda>u. usage_field u = name f) (field_worksheet_usage d);
              new = rows_emitted_for earlier fn d fs1 f
          in (us = [] \<longrightarrow>
                (\<exists>r. new = [r] \<and> Worksheet_Name r = '''' \<and>
                     Field_Used_in_Worksheets r = ''No'')) \<and>
             (us \<noteq> [] \<longrightarrow>
                length new = length us \<and>
                map Worksheet_Name new = map usage_worksheet us) \<and>
             (\<forall>r \<in> set new.
                Column_Name r = name f \<and> File_Name r = fn \<and>
                (Field_Used_in_Worksheets r = ''Yes'' \<longleftrightarrow> Worksheet_Name r \<noteq> '''')))"
proof (intro conjI)
  show "\<exists>before after.
            build_final_output (earlier @ (fn, d) # later) =
              before @ rows_emitted_for earlier fn d fs1 f @ after \<and>
            before = build_final_output (earlier @ [(fn, d\<lparr>data_fields := fs1\<rparr>)])"
    using assms by (rule rows_emitted_for_segment)
next
  let ?us = "filter (\<lambda>u. usage_field u = name f) (field_worksheet_usage d)"
  let ?new = "rows_emitted_for earlier fn d fs1 f"
  let ?c = "1 + int (length (concat (map workbook_plan earlier))) +
        int (length (concat (map (field_plan fn d) fs1)))"
  have new: "?new = number_rows (map (row_of fn d f) (field_worksheets d (name f))) ?c"
    by (simp add: rows_emitted_for_plan field_plan_def)
  have wn: "map Worksheet_Name ?new = field_worksheets d (name f)"
  proof -
    have "map Worksheet_Name ?new =
          map (\<lambda>g. Worksheet_Name (g 0)) (map (row_of fn d f) (field_worksheets d (name f)))"
      unfolding new by (rule map_number_rows) (auto simp: row_of_def)
    also have "\<dots> = field_worksheets d (name f)"
      by (simp add: comp_def row_of_def)
    finally show ?thesis .
  qed
  have e: "?us = [] \<longrightarrow>
        (\<exists>r. ?new = [r] \<and> Worksheet_Name r = '''' \<and> Field_Used_in_Worksheets r = ''No'')"
  proof
    assume "?us = []"
    then have "field_worksheets d (name f) = ['''']" by (simp add: field_worksheets_def)
    then have "?new = [row_of fn d f '''' ?c]" by (simp add: new)
    then show "\<exists>r. ?new = [r] \<and> Worksheet_Name r = '''' \<and> Field_Used_in_Worksheets r = ''No''"
      by (simp add: row_of_def)
  qed
  have n: "?us \<noteq> [] \<longrightarrow>
        length ?new = length ?us \<and> map Worksheet_Name ?new = map usage_worksheet ?us"
  proof
    assume "?us \<noteq> []"
    then have fw: "field_worksheets d (name f) = map usage_worksheet ?us"
      by (simp add: field_worksheets_def)
    have "length ?new = length (map Worksheet_Name ?new)" by simp
    also have "\<dots> = length ?us" unfolding wn fw by simp
    finally show "length ?new = length ?us \<and> map Worksheet_Name ?new = map usage_worksheet ?us"
      using wn fw by simp
  qed
  have a: "\<forall>r \<in> set ?new.
        Column_Name r = name f \<and> File_Name r = fn \<and>
        (Field_Used_in_Worksheets r = ''Yes'' \<longleftrightarrow> Worksheet_Name r \<noteq> '''')"
  proof
    fix r
    assume "r \<in> set ?new"
    then obtain g i where "g \<in> set (map (row_of fn d f) (field_worksheets d (name f)))"
      and "r = g i"
      unfolding new by (blast dest: set_number_rows)
    then show "Column_Name r = name f \<and> File_Name r = fn \<and>
        (Field_Used_in_Worksheets r = ''Yes'' \<longleftrightarrow> Worksheet_Name r \<noteq> '''')"
      by (auto simp: row_of_def)
  qed
  show "let us = ?us; new = ?new
        in (us = [] \<longrightarrow>
                (\<exists>r. new = [r] \<and> Worksheet_Name r = '''' \<and>
                     Field_Used_in_Worksheets r = ''No'')) \<and>
             (us \<noteq> [] \<longrightarrow>
                length new = length us \<and>
                map Worksheet_Name new = map usage_worksheet us) \<and>
             (\<forall>r \<in> set new.
                Column_Name r = name f \<and> File_Name r = fn \<and>
                (Field_Used_in_Worksheets r = ''Yes'' \<longleftrightarrow> Worksheet_Name r \<noteq> ''''))"
    unfolding Let_def using e n a by blast
qed

theorem rows_per_field_witness:
  "data_fields example_data = [] @ example_field # [] \<and>
   map Worksheet_Name (rows_emitted_for [] ''w.twb'' example_data [] example_field) = [''A'', ''B''] \<and>
   length (rows_emitted_for [] ''w.twb'' example_data [] example_field) = 2"
proof -
  have h: "data_fields example_data = [] @ example_field # []"
    by (simp add: example_data_def)
  have us: "filter (\<lambda>u. usage_field u = name example_field) (field_worksheet_usage example_data) =
    [\<lparr>usage_field = ''[Sales]'', usage_worksheet = ''A'', usage_datasource = ''ds1''\<rparr>,
     \<lparr>usage_field = ''[Sales]'', usage_worksheet = ''B'', usage_datasource = ''ds1''\<rparr>]"
    by (simp add: example_data_def example_field_def)
  show ?thesis
    using h rows_per_field [OF h, of "[]" "''w.twb''" "[]"]
    by (simp add: Let_def us)
qed

text \<open>
  C9 as stated fails: a field whose datasource \<open>ds1\<close> has no entry in the connections map
  gets rows whose \<open>Connection Alias\<close> is \<open>ds1\<close>, not the empty string, because the alias
  defaults to the field's datasource name.
\<close>

theorem absent_connection_alias_counterexample:
  "datasource example_field \<notin> dom (connections example_data) \<and>
   data_fields example_data = [] @ example_field # [] \<and>
   map Connection_Name (rows_emitted_for [] ''w.twb'' example_data [] example_field) = ['''', ''''] \<and>
   map Connection_Alias (rows_emitted_for [] ''w.twb'' example_data [] example_field) =
     [''ds1'', ''ds1''] \<and>
   rows_emitted_for [] ''w.twb'' example_data [] example_field =
     build_final_output [(''w.twb'', example_data)]"
  by (simp add: rows_emitted_for_def build_final_output_def process_workbook_def
      process_field_def emit_row_def usage_step_def example_data_def example_field_def
      Let_def)

text \<open>
  C9, amended. For every field whose datasource name is not a key of the workbook's
  connections map, every row emitted for that field has an empty \<open>Connection Name\<close> and a
  \<open>Connection Alias\<close> equal to the field's datasource name (so the alias is empty only
  when the datasource name is).
\<close>

theorem absent_connection_record:
  assumes "data_fields d = fs1 @ f # fs2"
    and "datasource f \<notin> dom (connections d)"
  shows "(\<exists>before after.
            build_final_output (earlier @ (fn, d) # later) =
              before @ rows_emitted_for earlier fn d fs1 f @ after) \<and>
         (\<forall>r \<in> set (rows_emitted_for earlier fn d fs1 f).
            Connection_Name r = '''' \<and> Connection_Alias r = datasource f)"
proof
  show "\<exists>before after.
            build_final_output (earlier @ (fn, d) # later) =
              before @ rows_emitted_for earlier fn d fs1 f @ after"
    using rows_emitted_for_segment [OF assms(1)] by blast
next
  from assms(2) have none: "connections d (datasource f) = None" by (simp add: dom_def)
  show "\<forall>r \<in> set (rows_emitted_for earlier fn d fs1 f).
            Connection_Name r = '''' \<and> Connection_Alias r = datasource f"
  proof
    fix r
    assume "r \<in> set (rows_emitted_for earlier fn d fs1 f)"
    then obtain g i where "g \<in> set (field_plan fn d f)" and "r = g i"
      unfolding rows_emitted_for_plan by (blast dest: set_number_rows)
    then show "Connection_Name r = '''' \<and> Connection_Alias r = datasource f"
      by (auto simp: field_plan_def row_of_def none)
  qed
qed

theorem absent_connection_record_witness:
  "data_fields example_data = [] @ example_field # [] \<and>
   datasource example_field \<notin> dom (connections example_data) \<and>
   list_all (\<lambda>r. Connection_Name r = '''' \<and> Connection_Alias r = ''ds1'')
     (rows_emitted_for [] ''w.twb'' example_data [] example_field)"
proof -
  have h1: "data_fields example_data = [] @ example_field # []"
    by (simp add: example_data_def)
  have h2: "datasource example_field \<notin> dom (connections example_data)"
    by (simp add: example_data_def)
  have ds: "datasource example_field = ''ds1''" by (simp add: example_field_def)
  show ?thesis
    using h1 h2 absent_connection_record [OF h1 h2, of "[]" "''w.twb''" "[]"]
    by (simp add: list_all_iff ds)
qed

text \<open>
  C10. Every row of \<open>build_final_output\<close> belongs to some workbook of the input and has as
  \<open>Column Name\<close> the name of a field of that workbook's field list. Consequently, with
  distinct file names, a usage entry whose field name matches no extracted field of its
  workbook yields no row of that workbook.
\<close>

theorem rows_only_for_fields:
  "(\<forall>r \<in> set (build_final_output wbs).
      \<exists>wb \<in> set wbs. File_Name r = fst wb \<and> Column_Name r \<in> name ` set (data_fields (snd wb))) \<and>
   (distinct (map fst wbs) \<longrightarrow>
      (\<forall>wb \<in> set wbs. \<forall>u \<in> set (field_worksheet_usage (snd wb)).
         usage_field u \<notin> name ` set (data_fields (snd wb)) \<longrightarrow>
         (\<forall>r \<in> set (build_final_output wbs).
            File_Name r = fst wb \<longrightarrow> Column_Name r \<noteq> usage_field u)))"
proof -
  have first: "\<exists>wb \<in> set wbs. File_Name r = fst wb \<and> Column_Name r \<in> name ` set (data_fields (snd wb))"
    if "r \<in> set (build_final_output wbs)" for r
  proof -
    from that obtain g i where "g \<in> set (concat (map workbook_plan wbs))" and r: "r = g i"
      unfolding build_final_output_plan by (blast dest: set_number_rows)
    from plan_elems [OF this(1)] obtain wb f w where "wb \<in> set wbs"
      and "f \<in> set (data_fields (snd wb))" and "g = row_of (fst wb) (snd wb) f w"
      by blast
    with r show ?thesis by (auto simp: row_of_def)
  qed
  have second: "Column_Name r \<noteq> usage_field u"
    if d: "distinct (map fst wbs)" and wb: "wb \<in> set wbs"
      and u: "usage_field u \<notin> name ` set (data_fields (snd wb))"
      and r: "r \<in> set (build_final_output wbs)" and fn: "File_Name r = fst wb"
    for wb and u :: usage and r
  proof -
    from first [OF r] obtain wb' where wb': "wb' \<in> set wbs" and k: "File_Name r = fst wb'"
      and c: "Column_Name r \<in> name ` set (data_fields (snd wb'))" by blast
    from fn k have "(fst wb, snd wb') = wb'" by (metis prod.collapse)
    with wb' have "(fst wb, snd wb') \<in> set wbs" by simp
    moreover from wb have "(fst wb, snd wb) \<in> set wbs" by simp
    ultimately have "snd wb = snd wb'" using d by (metis eq_key_imp_eq_value)
    with c u show ?thesis by auto
  qed
  from first second show ?thesis by blast
qed

theorem rows_only_for_fields_witness:
  "set (map Column_Name (build_final_output [(''w.twb'', example_data)])) \<subseteq> {''[Sales]''} \<and>
   ''[Ghost]'' \<in> usage_field ` set (field_worksheet_usage example_data) \<and>
   ''[Ghost]'' \<notin> set (map Column_Name (build_final_output [(''w.twb'', example_data)]))"
proof -
  have nm: "name ` set (data_fields example_data) = {''[Sales]''}"
    by (simp add: example_data_def example_field_def)
  have g: "''[Ghost]'' \<in> usage_field ` set (field_worksheet_usage example_data)"
    by (simp add: example_data_def)
  from rows_only_for_fields [of "[(''w.twb'', example_data)]"]
  have "\<forall>r \<in> set (build_final_output [(''w.twb'', example_data)]). Column_Name r = ''[Sales]''"
    by (simp add: nm)
  then have "set (map Column_Name (build_final_output [(''w.twb'', example_data)])) \<subseteq> {''[Sales]''}"
    by auto
  then show ?thesis using g by auto
qed

section \<open>Properties of the Metadata Extractor\<close>

text \<open>The composite key of a usage pair.\<close>

definition usage_key :: "usage \<Rightarrow> string \<times> string" where
  "usage_key u = (usage_field u, usage_worksheet u)"

lemma dedup_step_invariant:
  assumes "seen = set (map usage_key uu)" and "distinct (map usage_key uu)"
    and "dedup_step u (seen, uu) = (seen', uu')"
  shows "seen' = set (map usage_key uu') \<and> distinct (map usage_key uu') \<and>
         seen' = insert (usage_key u) seen"
proof (cases "usage_key u \<in> seen")
  case True
  with assms(3) have "seen' = seen" "uu' = uu"
    by (simp_all add: dedup_step_def usage_key_def Let_def)
  with assms(1,2) True show ?thesis by auto
next
  case False
  with assms(3) have "seen' = insert (usage_key u) seen" "uu' = uu @ [u]"
    by (auto simp: dedup_step_def usage_key_def Let_def)
  with assms(1,2) False show ?thesis by auto
qed

lemma fold_dedup_step_invariant:
  assumes "seen = set (map usage_key uu)" and "distinct (map usage_key uu)"
    and "fold dedup_step us (seen, uu) = (seen', uu')"
  shows "seen' = set (map usage_key uu') \<and> distinct (map usage_key uu') \<and>
         seen' = seen \<union> set (map usage_key us)"
  using assms
proof (induction us arbitrary: seen uu)
  case Nil
  then show ?case by auto
next
  case (Cons u us)
  obtain s1 u1 where st: "dedup_step u (seen, uu) = (s1, u1)" by (cases "dedup_step u (seen, uu)")
  from dedup_step_invariant [OF Cons.prems(1,2) st]
  have i1: "s1 = set (map usage_key u1)" and i2: "distinct (map usage_key u1)"
    and i3: "s1 = insert (usage_key u) seen" by blast+
  from Cons.prems(3) st have "fold dedup_step us (s1, u1) = (seen', uu')" by simp
  from Cons.IH [OF i1 i2 this] i3 show ?case by auto
qed

text \<open>
  C8. For every sequence of collected usage pairs, the list the deduplication loop returns
  has pairwise distinct (field, worksheet) keys, exactly the keys of the collected sequence,
  and as many entries as there are distinct keys; and the usage list of \<open>extract_all_data\<close>
  is the result of that loop on the pairs collected from the document.
\<close>

theorem usage_deduplicated:
  "(let unique_usage = snd (fold dedup_step us ({}, []))
    in distinct (map usage_key unique_usage) \<and>
       set (map usage_key unique_usage) = set (map usage_key us) \<and>
       length unique_usage = card (set (map usage_key us))) \<and>
   field_worksheet_usage (extract_all_data root filename) =
     snd (fold dedup_step (field_worksheet_usage (collect_all_data root filename)) ({}, []))"
proof
  obtain seen' uu' where f: "fold dedup_step us ({}, []) = (seen', uu')"
    by (cases "fold dedup_step us ({}, [])")
  have "seen' = set (map usage_key uu') \<and> distinct (map usage_key uu') \<and>
         seen' = {} \<union> set (map usage_key us)"
    by (rule fold_dedup_step_invariant [OF _ _ f]) simp_all
  then have d: "distinct (map usage_key uu')"
    and s: "set (map usage_key uu') = set (map usage_key us)" by auto
  have "length uu' = length (map usage_key uu')" by simp
  also have "\<dots> = card (set (map usage_key uu'))" using d by (simp only: distinct_card)
  finally have "length uu' = card (set (map usage_key us))" using s by simp
  with d s f show "let unique_usage = snd (fold dedup_step us ({}, []))
    in distinct (map usage_key unique_usage) \<and>
       set (map usage_key unique_usage) = set (map usage_key us) \<and>
       length unique_usage = card (set (map usage_key us))"
    by (simp add: Let_def)
next
  show "field_worksheet_usage (extract_all_data root filename) =
     snd (fold dedup_step (field_worksheet_usage (collect_all_data root filename)) ({}, []))"
    by (simp add: extract_all_data_def Let_def split_beta)
qed

theorem usage_deduplicated_witness:
  "length (snd (fold dedup_step
     [\<lparr>usage_field = ''[Sales]'', usage_worksheet = ''A'', usage_datasource = ''ds1''\<rparr>,
      \<lparr>usage_field = ''[Sales]'', usage_worksheet = ''B'', usage_datasource = ''ds1''\<rparr>,
      \<lparr>usage_field = ''[Sales]'', usage_worksheet = ''A'', usage_datasource = []\<rparr>]
     ({}, []))) = 2"
  using usage_deduplicated [THEN conjunct1, of
     "[\<lparr>usage_field = ''[Sales]'', usage_worksheet = ''A'', usage_datasource = ''ds1''\<rparr>,
      \<lparr>usage_field = ''[Sales]'', usage_worksheet = ''B'', usage_datasource = ''ds1''\<rparr>,
      \<lparr>usage_field = ''[Sales]'', usage_worksheet = ''A'', usage_datasource = []\<rparr>]"]
  by (simp add: Let_def usage_key_def card_insert_if)

text \<open>
  The entry a column writes into the calculation mapping (first pass, and again in the
  datasource pass): the id of its first nested calculation, bound to the column's caption
  or name, when both are non-empty.
\<close>

definition column_write :: "element \<Rightarrow> (string \<times> string) option" where
  "column_write col =
     (case find_first col ''calculation'' of
        None \<Rightarrow> None
      | Some calc_elem \<Rightarrow>
          if get calc_elem ''id'' '''' \<noteq> [] \<and> get col ''caption'' (get col ''name'' '''') \<noteq> []
          then Some (get calc_elem ''id'' '''', get col ''caption'' (get col ''name'' ''''))
          else None)"

text \<open>
  The entry a calculation element writes on its own: its id bound to its own caption or name.
\<close>

definition calculation_write :: "element \<Rightarrow> (string \<times> string) option" where
  "calculation_write calc =
     (if get calc ''id'' '''' \<noteq> [] \<and> get calc ''caption'' (get calc ''name'' '''') \<noteq> []
      then Some (get calc ''id'' '''', get calc ''caption'' (get calc ''name'' ''''))
      else None)"

text \<open>
  Applying a write, if there is one, to the mapping.
\<close>

definition apply_write :: "(string \<times> string) option \<Rightarrow> (string \<rightharpoonup> string) \<Rightarrow> (string \<rightharpoonup> string)" where
  "apply_write w m = (case w of None \<Rightarrow> m | Some (k, v) \<Rightarrow> m(k \<mapsto> v))"

text \<open>
  The column elements visited by the datasource pass, in its order.
\<close>

definition datasource_columns :: "element \<Rightarrow> element list" where
  "datasource_columns root =
     concat (map (\<lambda>ds. findall ds ''column'') (findall root ''datasource''))"

text \<open>
  The writes to the calculation mapping in the order the source performs them: the columns
  of the document, the calculation elements of the document, and then the columns of each
  datasource.
\<close>

definition calc_writes :: "element \<Rightarrow> (string \<times> string) option list" where
  "calc_writes root =
     map column_write (findall root ''column'') @
     map calculation_write (findall root ''calculation'') @
     map column_write (datasource_columns root)"

text \<open>
  The precedence of field types as the source applies it: a nested calculation first (a
  table calculation when its class contains \<open>tableau\<close>), then the role \<open>measure\<close>, upgraded
  when the aggregation attribute has a non-empty value, and \<open>Dimension\<close> otherwise.
\<close>

definition field_type_rule :: "element \<Rightarrow> string" where
  "field_type_rule col =
     (case find_first col ''calculation'' of
        Some calc_elem \<Rightarrow>
          if (\<exists>p r. get calc_elem ''class'' '''' = p @ ''tableau'' @ r)
          then ''Table Calculation'' else ''Calculated Field''
      | None \<Rightarrow>
          if attrib col ''role'' = Some ''measure''
          then (if (\<exists>a. attrib col ''aggregation'' = Some a \<and> a \<noteq> [])
                then ''Aggregated Measure'' else ''Measure'')
          else ''Dimension'')"

text \<open>
  The same precedence as the specification words it: the upgrade to \<open>Aggregated Measure\<close>
  happens when an aggregation attribute is present.
\<close>

definition spec_field_type :: "element \<Rightarrow> string" where
  "spec_field_type col =
     (case find_first col ''calculation'' of
        Some calc_elem \<Rightarrow>
          if (\<exists>p r. get calc_elem ''class'' '''' = p @ ''tableau'' @ r)
          then ''Table Calculation'' else ''Calculated Field''
      | None \<Rightarrow>
          if attrib col ''role'' = Some ''measure''
          then (if attrib col ''aggregation'' \<noteq> None
                then ''Aggregated Measure'' else ''Measure'')
          else ''Dimension'')"

text \<open>
  The field record appended for a column of the datasource named \<open>ds_name\<close>.
\<close>

definition column_field :: "string \<Rightarrow> element \<Rightarrow> field" where
  "column_field ds_name col =
     \<lparr>name = get col ''name'' '''',
      caption = get col ''caption'' (get col ''name'' ''''),
      data_type = get col ''datatype'' '''',
      role = get col ''role'' '''',
      datasource = ds_name,
      formula = (case find_first col ''calculation'' of
                   None \<Rightarrow> '''' | Some calc_elem \<Rightarrow> get calc_elem ''formula'' ''''),
      field_type = field_type_rule col\<rparr>"

text \<open>
  The connection a datasource element records: the endpoint is the value of the first
  attribute among server, filename and database that is present.
\<close>

definition apply_connection ::
  "element \<Rightarrow> (string \<rightharpoonup> connection) \<Rightarrow> (string \<rightharpoonup> connection)" where
  "apply_connection ds m =
     (case find_first ds ''connection'' of
        None \<Rightarrow> m
      | Some conn \<Rightarrow>
          m(get ds ''name'' '''' \<mapsto>
            \<lparr>conn_info_name =
               (case attrib conn ''server'' of
                  Some v \<Rightarrow> v
                | None \<Rightarrow>
                    (case attrib conn ''filename'' of
                       Some v \<Rightarrow> v
                     | None \<Rightarrow>
                         (case attrib conn ''database'' of Some v \<Rightarrow> v | None \<Rightarrow> ''''))),
             conn_info_alias = get ds ''caption'' (get ds ''name'' ''''),
             conn_info_class = get conn ''class'' ''''\<rparr>))"

lemma is_substring_iff: "is_substring sub s \<longleftrightarrow> (\<exists>p r. s = p @ sub @ r)"
proof (induction s)
  case Nil
  show ?case by auto
next
  case (Cons c cs)
  have "(\<exists>p r. c # cs = p @ sub @ r) \<longleftrightarrow> (\<exists>r. c # cs = sub @ r) \<or> (\<exists>p r. cs = p @ sub @ r)"
  proof
    assume "\<exists>p r. c # cs = p @ sub @ r"
    then obtain p r where e: "c # cs = p @ sub @ r" by blast
    show "(\<exists>r. c # cs = sub @ r) \<or> (\<exists>p r. cs = p @ sub @ r)"
    proof (cases p)
      case Nil
      with e show ?thesis by auto
    next
      case (Cons a p')
      with e have "cs = p' @ sub @ r" by simp
      then show ?thesis by blast
    qed
  next
    assume "(\<exists>r. c # cs = sub @ r) \<or> (\<exists>p r. cs = p @ sub @ r)"
    then show "\<exists>p r. c # cs = p @ sub @ r"
    proof
      assume "\<exists>r. c # cs = sub @ r"
      then obtain r where "c # cs = [] @ sub @ r" by auto
      then show ?thesis by blast
    next
      assume "\<exists>p r. cs = p @ sub @ r"
      then obtain p r where "c # cs = (c # p) @ sub @ r" by auto
      then show ?thesis by blast
    qed
  qed
  moreover have "strip_prefix sub (c # cs) \<noteq> None \<longleftrightarrow> (\<exists>r. c # cs = sub @ r)"
    by (auto simp: strip_prefix_Some)
  ultimately show ?case using Cons.IH by simp
qed

lemma column_step_eq:
  "column_step ds_name col d =
     d\<lparr>data_fields := data_fields d @ [column_field ds_name col],
       calculations := apply_write (column_write col) (calculations d)\<rparr>"
  by (cases "find_first col ''calculation''")
     (auto simp: column_step_def column_field_def column_write_def apply_write_def
        field_type_rule_def is_substring_iff Let_def split: option.splits)

lemma fold_column_step_eq:
  "fold (column_step ds_name) cols d =
     d\<lparr>data_fields := data_fields d @ map (column_field ds_name) cols,
       calculations := fold apply_write (map column_write cols) (calculations d)\<rparr>"
  by (induction cols arbitrary: d) (simp_all add: column_step_eq)

text \<open>
  The fields a datasource contributes, in column order.
\<close>

definition datasource_fields :: "element \<Rightarrow> field list" where
  "datasource_fields ds = map (column_field (get ds ''name'' '''')) (findall ds ''column'')"

lemma datasource_step_eq:
  "datasource_step ds d =
     d\<lparr>connections := apply_connection ds (connections d),
       data_fields := data_fields d @ datasource_fields ds,
       calculations :=
         fold apply_write (map column_write (findall ds ''column'')) (calculations d)\<rparr>"
  by (cases "find_first ds ''connection''")
     (simp_all add: datasource_step_def apply_connection_def datasource_fields_def
        fold_column_step_eq get_def Let_def split: option.splits)

lemma fold_datasource_step_eq:
  "fold datasource_step dss d =
     d\<lparr>connections := fold apply_connection dss (connections d),
       data_fields := data_fields d @ concat (map datasource_fields dss),
       calculations :=
         fold apply_write
           (map column_write (concat (map (\<lambda>ds. findall ds ''column'') dss)))
           (calculations d)\<rparr>"
  by (induction dss arbitrary: d) (simp_all add: datasource_step_eq)

lemma calc_from_column_eq: "calc_from_column col m = apply_write (column_write col) m"
  by (simp add: calc_from_column_def column_write_def apply_write_def Let_def
      split: option.splits)

lemma calc_from_calculation_eq:
  "calc_from_calculation calc m = apply_write (calculation_write calc) m"
  by (simp add: calc_from_calculation_def calculation_write_def apply_write_def Let_def)

lemma fold_calc_from_column_eq:
  "fold calc_from_column cols m = fold apply_write (map column_write cols) m"
  by (induction cols arbitrary: m) (simp_all add: calc_from_column_eq)

lemma fold_calc_from_calculation_eq:
  "fold calc_from_calculation calcs m = fold apply_write (map calculation_write calcs) m"
  by (induction calcs arbitrary: m) (simp_all add: calc_from_calculation_eq)

lemma fold_standalone_step_frame:
  "\<exists>rest. fold standalone_step calcs d = d\<lparr>data_fields := data_fields d @ rest\<rparr>"
proof (induction calcs arbitrary: d)
  case Nil
  have "fold standalone_step [] d = d\<lparr>data_fields := data_fields d @ []\<rparr>" by simp
  then show ?case by blast
next
  case (Cons c calcs)
  obtain r1 where r1: "standalone_step c d = d\<lparr>data_fields := data_fields d @ r1\<rparr>"
  proof (cases "standalone_step c d = d")
    case True
    then have "standalone_step c d = d\<lparr>data_fields := data_fields d @ []\<rparr>" by simp
    then show ?thesis by (rule that)
  next
    case False
    then show ?thesis
      by (intro that) (auto simp: standalone_step_def Let_def split: if_splits)
  qed
  from Cons.IH [of "standalone_step c d"] obtain r2 where
    "fold standalone_step calcs (standalone_step c d) =
       (standalone_step c d)\<lparr>data_fields := data_fields (standalone_step c d) @ r2\<rparr>"
    by blast
  then have "fold standalone_step (c # calcs) d = d\<lparr>data_fields := data_fields d @ (r1 @ r2)\<rparr>"
    by (simp add: r1)
  then show ?case by blast
qed

lemma fold_usage_frame:
  assumes "\<And>x d. \<exists>us. f x d = d\<lparr>field_worksheet_usage := field_worksheet_usage d @ us\<rparr>"
  shows "\<exists>us. fold f xs d = d\<lparr>field_worksheet_usage := field_worksheet_usage d @ us\<rparr>"
proof (induction xs arbitrary: d)
  case Nil
  have "fold f [] d = d\<lparr>field_worksheet_usage := field_worksheet_usage d @ []\<rparr>" by simp
  then show ?case by blast
next
  case (Cons x xs)
  from assms [of x d] obtain u1 where
    u1: "f x d = d\<lparr>field_worksheet_usage := field_worksheet_usage d @ u1\<rparr>" by blast
  from Cons.IH [of "f x d"] obtain u2 where
    "fold f xs (f x d) = (f x d)\<lparr>field_worksheet_usage := field_worksheet_usage (f x d) @ u2\<rparr>"
    by blast
  then have "fold f (x # xs) d =
      d\<lparr>field_worksheet_usage := field_worksheet_usage d @ (u1 @ u2)\<rparr>"
    by (simp add: u1)
  then show ?case by blast
qed

lemma dependency_column_step_frame:
  "\<exists>us. dependency_column_step w n col d =
     d\<lparr>field_worksheet_usage := field_worksheet_usage d @ us\<rparr>"
proof (cases "get col ''name'' '''' = []")
  case True
  then have "dependency_column_step w n col d =
     d\<lparr>field_worksheet_usage := field_worksheet_usage d @ []\<rparr>"
    by (simp add: dependency_column_step_def)
  then show ?thesis by blast
next
  case False
  then have "dependency_column_step w n col d =
     d\<lparr>field_worksheet_usage := field_worksheet_usage d @
       [\<lparr>usage_field = get col ''name'' '''', usage_worksheet = w, usage_datasource = n\<rparr>]\<rparr>"
    by (simp add: dependency_column_step_def Let_def)
  then show ?thesis by blast
qed

lemma encoding_column_step_frame:
  "\<exists>us. encoding_column_step w col d =
     d\<lparr>field_worksheet_usage := field_worksheet_usage d @ us\<rparr>"
proof (cases "encoding_column_step w col d = d")
  case True
  then have "encoding_column_step w col d =
     d\<lparr>field_worksheet_usage := field_worksheet_usage d @ []\<rparr>" by simp
  then show ?thesis by blast
next
  case False
  then show ?thesis
    by (auto simp: encoding_column_step_def Let_def split: if_splits option.splits)
qed

lemma worksheet_step_frame:
  "\<exists>us. worksheet_step ws d = d\<lparr>field_worksheet_usage := field_worksheet_usage d @ us\<rparr>"
proof -
  have dep: "\<And>x d. \<exists>us. dependency_step (get ws ''name'' '''') x d =
     d\<lparr>field_worksheet_usage := field_worksheet_usage d @ us\<rparr>"
    unfolding dependency_step_def Let_def
    by (rule fold_usage_frame) (rule dependency_column_step_frame)
  let ?d1 = "fold (dependency_step (get ws ''name'' '''')) (findall ws ''datasource-dependencies'') d"
  from fold_usage_frame [of "dependency_step (get ws ''name'' '''')", OF dep]
  obtain u1 where u1: "?d1 = d\<lparr>field_worksheet_usage := field_worksheet_usage d @ u1\<rparr>"
    by blast
  from fold_usage_frame [of "encoding_column_step (get ws ''name'' '''')",
      OF encoding_column_step_frame]
  obtain u2 where "fold (encoding_column_step (get ws ''name'' ''''))
      (concat (map (\<lambda>enc. findall enc ''column'') (findall ws ''encoding''))) ?d1 =
      ?d1\<lparr>field_worksheet_usage := field_worksheet_usage ?d1 @ u2\<rparr>"
    by blast
  then have "worksheet_step ws d =
      d\<lparr>field_worksheet_usage := field_worksheet_usage d @ (u1 @ u2)\<rparr>"
    by (simp add: worksheet_step_def Let_def u1)
  then show ?thesis by blast
qed

lemma collect_all_data_eq:
  "\<exists>rest us. collect_all_data root filename =
     \<lparr>data_fields = concat (map datasource_fields (findall root ''datasource'')) @ rest,
      calculations = fold apply_write (calc_writes root) Map.empty,
      field_worksheet_usage = us,
      connections = fold apply_connection (findall root ''datasource'') Map.empty\<rparr>"
proof -
  define m where "m = fold calc_from_calculation (findall root ''calculation'')
              (fold calc_from_column (findall root ''column'') Map.empty)"
  define d1 where "d1 = fold datasource_step (findall root ''datasource'')
      \<lparr>data_fields = [], calculations = m, field_worksheet_usage = [],
       connections = Map.empty\<rparr>"
  define d2 where "d2 = fold standalone_step (findall root ''calculation'') d1"
  have c: "collect_all_data root filename = fold worksheet_step (findall root ''worksheet'') d2"
    by (simp add: collect_all_data_def Let_def d2_def d1_def m_def)
  have d1: "d1 =
     \<lparr>data_fields = concat (map datasource_fields (findall root ''datasource'')),
      calculations = fold apply_write (calc_writes root) Map.empty,
      field_worksheet_usage = [],
      connections = fold apply_connection (findall root ''datasource'') Map.empty\<rparr>"
    by (simp add: d1_def m_def fold_datasource_step_eq fold_calc_from_column_eq
        fold_calc_from_calculation_eq calc_writes_def datasource_columns_def)
  obtain rest where d2: "d2 = d1\<lparr>data_fields := data_fields d1 @ rest\<rparr>"
    unfolding d2_def
    using fold_standalone_step_frame [of "findall root ''calculation''" d1] by blast
  obtain us where d3: "fold worksheet_step (findall root ''worksheet'') d2 =
      d2\<lparr>field_worksheet_usage := field_worksheet_usage d2 @ us\<rparr>"
    using fold_usage_frame [of worksheet_step, OF worksheet_step_frame] by blast
  have "collect_all_data root filename =
     \<lparr>data_fields = concat (map datasource_fields (findall root ''datasource'')) @ rest,
      calculations = fold apply_write (calc_writes root) Map.empty,
      field_worksheet_usage = us,
      connections = fold apply_connection (findall root ''datasource'') Map.empty\<rparr>"
    unfolding c d3 unfolding d2 unfolding d1 by simp
  then show ?thesis by blast
qed

lemma extract_all_data_eq:
  "\<exists>rest us. extract_all_data root filename =
     \<lparr>data_fields = concat (map datasource_fields (findall root ''datasource'')) @ rest,
      calculations = fold apply_write (calc_writes root) Map.empty,
      field_worksheet_usage = us,
      connections = fold apply_connection (findall root ''datasource'') Map.empty\<rparr>"
proof -
  from collect_all_data_eq [of root filename] obtain rest us where
    "collect_all_data root filename =
     \<lparr>data_fields = concat (map datasource_fields (findall root ''datasource'')) @ rest,
      calculations = fold apply_write (calc_writes root) Map.empty,
      field_worksheet_usage = us,
      connections = fold apply_connection (findall root ''datasource'') Map.empty\<rparr>"
    by blast
  then have "extract_all_data root filename =
     \<lparr>data_fields = concat (map datasource_fields (findall root ''datasource'')) @ rest,
      calculations = fold apply_write (calc_writes root) Map.empty,
      field_worksheet_usage = snd (fold dedup_step us ({}, [])),
      connections = fold apply_connection (findall root ''datasource'') Map.empty\<rparr>"
    by (simp add: extract_all_data_def Let_def split_beta)
  then show ?thesis by blast
qed

lemma connections_extract_all_data:
  "connections (extract_all_data root filename) =
     fold apply_connection (findall root ''datasource'') Map.empty"
  using extract_all_data_eq [of root filename] by auto

lemma calculations_extract_all_data:
  "calculations (extract_all_data root filename) = fold apply_write (calc_writes root) Map.empty"
  using extract_all_data_eq [of root filename] by auto

lemma data_fields_extract_all_data:
  "\<exists>rest. data_fields (extract_all_data root filename) =
     concat (map datasource_fields (findall root ''datasource'')) @ rest"
  using extract_all_data_eq [of root filename] by auto

lemma fold_apply_connection_other:
  assumes "\<forall>ds' \<in> set dss. find_first ds' ''connection'' \<noteq> None \<longrightarrow> get ds' ''name'' '''' \<noteq> k"
  shows "fold apply_connection dss m k = m k"
  using assms
proof (induction dss arbitrary: m)
  case Nil
  show ?case by simp
next
  case (Cons ds dss)
  have "apply_connection ds m k = m k"
    using Cons.prems by (auto simp: apply_connection_def split: option.splits)
  moreover have "fold apply_connection dss (apply_connection ds m) k = apply_connection ds m k"
    by (rule Cons.IH) (use Cons.prems in simp)
  ultimately show ?case by simp
qed

text \<open>
  The endpoint as the specification words it: the first of the server, filename and
  database attributes whose value is non-empty.
\<close>

definition spec_endpoint :: "element \<Rightarrow> string" where
  "spec_endpoint conn =
     (case filter (\<lambda>v. v \<noteq> [])
             (map (\<lambda>key. get conn key '''') [''server'', ''filename'', ''database'']) of
        [] \<Rightarrow> ''''
      | v # _ \<Rightarrow> v)"

text \<open>
  A datasource whose connection has an empty server attribute and a file name.
\<close>

definition example_connection :: element where
  "example_connection =
     Element ''connection'' [''server'' \<mapsto> '''', ''filename'' \<mapsto> ''data.csv''] None []"

definition example_datasource :: element where
  "example_datasource = Element ''datasource'' [''name'' \<mapsto> ''ds1''] None [example_connection]"

definition example_connection_root :: element where
  "example_connection_root = Element ''workbook'' Map.empty None [example_datasource]"

text \<open>
  C4 as stated fails: with a server attribute that is present and empty and a non-empty
  filename attribute, the recorded endpoint name is the empty server value, not the file name.
\<close>

theorem connection_endpoint_counterexample:
  "findall example_connection_root ''datasource'' = [example_datasource] \<and>
   find_first example_datasource ''connection'' = Some example_connection \<and>
   attrib example_connection ''server'' = Some '''' \<and>
   spec_endpoint example_connection = ''data.csv'' \<and>
   map_option conn_info_name
     (connections (extract_all_data example_connection_root ''w.twb'') ''ds1'') = Some ''''"
  by (simp add: connections_extract_all_data apply_connection_def spec_endpoint_def
      example_connection_root_def example_datasource_def example_connection_def
      findall_def find_first_def get_def)

text \<open>
  C4, amended. For every datasource element with a connection element (and no later
  datasource of the same name with one), the recorded Connection's endpoint name is the
  value of the first of the server, filename and database attributes that is present,
  empty or not, and the empty string when none is present; its alias is the datasource
  caption, defaulting to the datasource name.
\<close>

theorem connection_endpoint_first_present:
  assumes "findall root ''datasource'' = before @ ds # after"
    and "find_first ds ''connection'' = Some conn"
    and "\<forall>ds' \<in> set after.
           find_first ds' ''connection'' \<noteq> None \<longrightarrow> get ds' ''name'' '''' \<noteq> get ds ''name'' ''''"
  shows "\<exists>c. connections (extract_all_data root filename) (get ds ''name'' '''') = Some c \<and>
           conn_info_name c =
             (case attrib conn ''server'' of
                Some v \<Rightarrow> v
              | None \<Rightarrow>
                  (case attrib conn ''filename'' of
                     Some v \<Rightarrow> v
                   | None \<Rightarrow>
                       (case attrib conn ''database'' of Some v \<Rightarrow> v | None \<Rightarrow> ''''))) \<and>
           conn_info_alias c = get ds ''caption'' (get ds ''name'' '''')"
proof -
  let ?k = "get ds ''name'' ''''"
  let ?m = "fold apply_connection before Map.empty"
  have "connections (extract_all_data root filename) ?k =
        fold apply_connection after (apply_connection ds ?m) ?k"
    by (simp add: connections_extract_all_data assms(1))
  also have "\<dots> = apply_connection ds ?m ?k"
    by (rule fold_apply_connection_other) (rule assms(3))
  finally show ?thesis
    by (simp add: apply_connection_def assms(2))
qed

theorem connection_endpoint_first_present_witness:
  "findall example_connection_root ''datasource'' = [] @ example_datasource # [] \<and>
   find_first example_datasource ''connection'' = Some example_connection \<and>
   (\<exists>c. connections (extract_all_data example_connection_root ''w.twb'') ''ds1'' = Some c \<and>
        conn_info_name c = '''' \<and> conn_info_alias c = ''ds1'')"
proof -
  have h1: "findall example_connection_root ''datasource'' = [] @ example_datasource # []"
    by (simp add: example_connection_root_def example_datasource_def example_connection_def
        findall_def)
  have h2: "find_first example_datasource ''connection'' = Some example_connection"
    by (simp add: example_datasource_def example_connection_def findall_def find_first_def)
  have h3: "\<forall>ds' \<in> set [].
           find_first ds' ''connection'' \<noteq> None \<longrightarrow>
           get ds' ''name'' '''' \<noteq> get example_datasource ''name'' ''''"
    by simp
  have nm: "get example_datasource ''name'' '''' = ''ds1''"
    and cp: "get example_datasource ''caption'' ''ds1'' = ''ds1''"
    and sv: "attrib example_connection ''server'' = Some ''''"
    by (simp_all add: example_datasource_def example_connection_def get_def)
  show ?thesis
    using h1 h2 connection_endpoint_first_present [OF h1 h2 h3, of "''w.twb''"]
    by (simp add: nm cp sv)
qed

text \<open>
  The writes that take place, as a sequence of key and value.
\<close>

definition put_write :: "string \<times> string \<Rightarrow> (string \<rightharpoonup> string) \<Rightarrow> (string \<rightharpoonup> string)" where
  "put_write w m = m(fst w \<mapsto> snd w)"

definition calc_write_sequence :: "element \<Rightarrow> (string \<times> string) list" where
  "calc_write_sequence root = List.map_filter (\<lambda>w. w) (calc_writes root)"

lemma fold_apply_write_eq:
  "fold apply_write ws m = fold put_write (List.map_filter (\<lambda>w. w) ws) m"
proof (induction ws arbitrary: m)
  case Nil
  show ?case by (simp add: map_filter_simps)
next
  case (Cons w ws)
  show ?case
  proof (cases w)
    case None
    have "fold apply_write (w # ws) m = fold apply_write ws m"
      by (simp add: None apply_write_def)
    also have "\<dots> = fold put_write (List.map_filter (\<lambda>w. w) ws) m" by (rule Cons.IH)
    also have "\<dots> = fold put_write (List.map_filter (\<lambda>w. w) (w # ws)) m"
      by (simp add: None map_filter_simps)
    finally show ?thesis .
  next
    case (Some kv)
    have "fold apply_write (w # ws) m = fold apply_write ws (put_write kv m)"
      by (simp add: Some apply_write_def put_write_def split_beta)
    also have "\<dots> = fold put_write (List.map_filter (\<lambda>w. w) ws) (put_write kv m)"
      by (rule Cons.IH)
    also have "\<dots> = fold put_write (List.map_filter (\<lambda>w. w) (w # ws)) m"
      by (simp add: Some map_filter_simps)
    finally show ?thesis .
  qed
qed

lemma map_filter_map_id: "List.map_filter (\<lambda>w. w) (map f xs) = List.map_filter f xs"
  by (induction xs) (simp_all add: map_filter_simps split: option.splits)

lemma map_filter_append: "List.map_filter f (xs @ ys) = List.map_filter f xs @ List.map_filter f ys"
  by (simp add: List.map_filter_def)

lemma fold_put_write_other: "k \<notin> fst ` set ws \<Longrightarrow> fold put_write ws m k = m k"
  by (induction ws arbitrary: m) (auto simp: put_write_def)

text \<open>
  The calculation mapping as the specification words it: the declarations of the document
  (columns with a nested calculation, and calculation elements) merged in document
  traversal order, a later one overwriting an earlier one with the same id.
\<close>

definition declaration_write :: "element \<Rightarrow> (string \<times> string) option" where
  "declaration_write e =
     (if tag e = ''column'' then column_write e
      else if tag e = ''calculation'' then calculation_write e
      else None)"

definition spec_calc_map :: "element \<Rightarrow> (string \<rightharpoonup> string)" where
  "spec_calc_map root = fold apply_write (map declaration_write (descendants root)) Map.empty"

text \<open>
  A document in which a datasource column declares the calculation id 1 with caption X,
  and a standalone calculation later in the document declares the same id with caption Y.
\<close>

definition example_calculation_root :: element where
  "example_calculation_root =
     Element ''workbook'' Map.empty None
       [Element ''datasource'' [''name'' \<mapsto> ''ds1''] None
          [Element ''column'' [''name'' \<mapsto> ''[c1]'', ''caption'' \<mapsto> ''X''] None
             [Element ''calculation'' [''id'' \<mapsto> ''1'', ''formula'' \<mapsto> ''1+1''] None []]],
        Element ''calculation'' [''id'' \<mapsto> ''1'', ''caption'' \<mapsto> ''Y''] None []]"

lemma example_calc_writes:
  "calc_writes example_calculation_root =
     [Some (''1'', ''X''), None, Some (''1'', ''Y''), Some (''1'', ''X'')]"
  by (simp add: calc_writes_def datasource_columns_def example_calculation_root_def
      findall_def find_first_def get_def column_write_def calculation_write_def)

text \<open>
  C5 as stated fails: the standalone declaration of id 1 is the latest one in document
  traversal order, and last-write-wins in that order would give Y, but the recorded
  mapping holds X, written again by the datasource pass.
\<close>

theorem calculation_map_counterexample:
  "map tag (descendants example_calculation_root) =
     [''datasource'', ''column'', ''calculation'', ''calculation''] \<and>
   map declaration_write (descendants example_calculation_root) =
     [None, Some (''1'', ''X''), None, Some (''1'', ''Y'')] \<and>
   spec_calc_map example_calculation_root ''1'' = Some ''Y'' \<and>
   calculations (extract_all_data example_calculation_root ''w.twb'') ''1'' = Some ''X''"
proof -
  have d: "map declaration_write (descendants example_calculation_root) =
     [None, Some (''1'', ''X''), None, Some (''1'', ''Y'')]"
    by (simp add: example_calculation_root_def declaration_write_def
      findall_def find_first_def get_def column_write_def calculation_write_def)
  have t: "map tag (descendants example_calculation_root) =
     [''datasource'', ''column'', ''calculation'', ''calculation'']"
    by (simp add: example_calculation_root_def)
  have s: "spec_calc_map example_calculation_root ''1'' = Some ''Y''"
    unfolding spec_calc_map_def d by (simp add: apply_write_def)
  have c: "calculations (extract_all_data example_calculation_root ''w.twb'') ''1'' = Some ''X''"
    unfolding calculations_extract_all_data example_calc_writes by (simp add: apply_write_def)
  from t d s c show ?thesis by simp
qed

text \<open>
  C5, amended. The calculation mapping recorded by \<open>extract_all_data\<close> is last-write-wins
  over the sequence of writes in pass order: first the columns of the document that carry
  a calculation, in document order; then the calculation elements with a caption or name
  of their own, in document order; then the columns of each datasource again. An id bound
  by no write is absent.
\<close>

theorem calculation_map_last_write:
  "calculations (extract_all_data root filename) =
     fold put_write (calc_write_sequence root) Map.empty \<and>
   (\<forall>k v ws1 ws2.
      calc_write_sequence root = ws1 @ (k, v) # ws2 \<and> k \<notin> fst ` set ws2 \<longrightarrow>
      calculations (extract_all_data root filename) k = Some v) \<and>
   (\<forall>k. k \<notin> fst ` set (calc_write_sequence root) \<longrightarrow>
      calculations (extract_all_data root filename) k = None) \<and>
   calc_write_sequence root =
     List.map_filter column_write (findall root ''column'') @
     List.map_filter calculation_write (findall root ''calculation'') @
     List.map_filter column_write
       (concat (map (\<lambda>ds. findall ds ''column'') (findall root ''datasource'')))"
proof (intro conjI allI impI)
  show eq: "calculations (extract_all_data root filename) =
     fold put_write (calc_write_sequence root) Map.empty"
    by (simp add: calculations_extract_all_data fold_apply_write_eq calc_write_sequence_def)
  show "calculations (extract_all_data root filename) k = Some v"
    if "calc_write_sequence root = ws1 @ (k, v) # ws2 \<and> k \<notin> fst ` set ws2" for k v ws1 ws2
  proof -
    from that have "fold put_write (calc_write_sequence root) Map.empty k =
        fold put_write ws2 (put_write (k, v) (fold put_write ws1 Map.empty)) k"
      by simp
    also have "\<dots> = put_write (k, v) (fold put_write ws1 Map.empty) k"
      using that by (simp add: fold_put_write_other)
    finally show ?thesis by (simp add: eq put_write_def)
  qed
  show "calculations (extract_all_data root filename) k = None"
    if "k \<notin> fst ` set (calc_write_sequence root)" for k
    using that by (simp add: eq fold_put_write_other)
  show "calc_write_sequence root =
     List.map_filter column_write (findall root ''column'') @
     List.map_filter calculation_write (findall root ''calculation'') @
     List.map_filter column_write
       (concat (map (\<lambda>ds. findall ds ''column'') (findall root ''datasource'')))"
    by (simp add: calc_write_sequence_def calc_writes_def datasource_columns_def
        map_filter_append map_filter_map_id)
qed

theorem calculation_map_last_write_witness:
  "calc_write_sequence example_calculation_root =
     [(''1'', ''X''), (''1'', ''Y'')] @ (''1'', ''X'') # [] \<and>
   ''1'' \<notin> fst ` set ([] :: (string \<times> string) list) \<and>
   calculations (extract_all_data example_calculation_root ''w.twb'') ''1'' = Some ''X''"
proof -
  have h: "calc_write_sequence example_calculation_root =
     [(''1'', ''X''), (''1'', ''Y'')] @ (''1'', ''X'') # []"
    by (simp add: calc_write_sequence_def example_calc_writes map_filter_simps)
  from calculation_map_last_write [of example_calculation_root "''w.twb''"]
  have "\<forall>k v ws1 ws2.
      calc_write_sequence example_calculation_root = ws1 @ (k, v) # ws2 \<and> k \<notin> fst ` set ws2 \<longrightarrow>
      calculations (extract_all_data example_calculation_root ''w.twb'') k = Some v"
    by blast
  from this [rule_format, of "[(''1'', ''X''), (''1'', ''Y'')]" "''1''" "''X''" "[]"] h
  show ?thesis by simp
qed

text \<open>
  A measure column whose aggregation attribute is present and empty.
\<close>

definition example_measure_column :: element where
  "example_measure_column =
     Element ''column''
       [''name'' \<mapsto> ''[Sales]'', ''role'' \<mapsto> ''measure'', ''aggregation'' \<mapsto> ''''] None []"

definition example_measure_root :: element where
  "example_measure_root =
     Element ''workbook'' Map.empty None
       [Element ''datasource'' [''name'' \<mapsto> ''ds1''] None [example_measure_column]]"

lemma example_measure_columns:
  "datasource_columns example_measure_root = [example_measure_column]"
  by (simp add: datasource_columns_def example_measure_root_def example_measure_column_def
      findall_def)

lemma field_type_datasource_fields:
  "map field_type (concat (map datasource_fields dss)) =
     map field_type_rule (concat (map (\<lambda>ds. findall ds ''column'') dss))"
  by (induction dss) (simp_all add: datasource_fields_def column_field_def comp_def)

text \<open>
  C7 as stated fails: a measure column whose aggregation attribute is present with an
  empty value stays \<open>Measure\<close>.
\<close>

theorem field_type_counterexample:
  "datasource_columns example_measure_root = [example_measure_column] \<and>
   attrib example_measure_column ''aggregation'' = Some '''' \<and>
   spec_field_type example_measure_column = ''Aggregated Measure'' \<and>
   map field_type (data_fields (extract_all_data example_measure_root ''w.twb'')) = [''Measure'']"
proof -
  have a: "attrib example_measure_column ''aggregation'' = Some ''''"
    by (simp add: example_measure_column_def)
  have s: "spec_field_type example_measure_column = ''Aggregated Measure''"
    by (simp add: spec_field_type_def example_measure_column_def find_first_def findall_def)
  have f: "map field_type (data_fields (extract_all_data example_measure_root ''w.twb'')) =
      [''Measure'']"
    by (simp add: extract_all_data_def collect_all_data_def datasource_step_def
        column_step_def standalone_step_def worksheet_step_def
        example_measure_root_def example_measure_column_def findall_def find_first_def
        get_def Let_def split_beta)
  from example_measure_columns a s f show ?thesis by simp
qed

text \<open>
  C7, amended. For every column element inside a datasource, the field type of the field
  extracted for it follows the precedence: with a nested calculation element it is
  \<open>Calculated Field\<close>, or \<open>Table Calculation\<close> when the calculation's class contains
  \<open>tableau\<close>; otherwise with role \<open>measure\<close> it is \<open>Measure\<close>, upgraded to
  \<open>Aggregated Measure\<close> when the aggregation attribute is present with a non-empty value;
  otherwise \<open>Dimension\<close>. The fields of the datasource columns come first in the field
  list, in the order of the datasource pass.
\<close>

theorem field_type_precedence:
  "\<exists>rest. map field_type (data_fields (extract_all_data root filename)) =
     map field_type_rule (datasource_columns root) @ rest"
proof -
  from data_fields_extract_all_data [of root filename] obtain rest where
    "data_fields (extract_all_data root filename) =
       concat (map datasource_fields (findall root ''datasource'')) @ rest"
    by blast
  then have "map field_type (data_fields (extract_all_data root filename)) =
     map field_type_rule (datasource_columns root) @ map field_type rest"
    by (simp add: field_type_datasource_fields datasource_columns_def)
  then show ?thesis by blast
qed

theorem field_type_precedence_witness:
  "\<exists>rest. map field_type (data_fields (extract_all_data example_measure_root ''w.twb'')) =
     [''Measure''] @ rest"
proof -
  have "field_type_rule example_measure_column = ''Measure''"
    by (simp add: field_type_rule_def example_measure_column_def find_first_def findall_def)
  with field_type_precedence [of example_measure_root "''w.twb''"] show ?thesis
    by (simp add: example_measure_columns)
qed

section \<open>Idempotence of formula cleaning\<close>

text \<open>
  The three patterns of the source, as prefix, minimal number of digits and closing
  character.
\<close>

definition ref_pattern :: "string \<Rightarrow> nat \<Rightarrow> char \<Rightarrow> bool" where
  "ref_pattern pre n cl \<longleftrightarrow>
     (pre = ''[Calculation_'' \<and> n = 1 \<and> cl = CHR '']'') \<or>
     (pre = CHR ''@'' # ''{'' \<and> n = 1 \<and> cl = CHR ''}'') \<or>
     (pre = ''['' \<and> n = 10 \<and> cl = CHR '']'')"

text \<open>
  Every match of a pattern at the start of a string, and anywhere in it, carries an id
  that satisfies \<open>P\<close>.
\<close>

definition ref_check :: "(string \<Rightarrow> bool) \<Rightarrow> string \<Rightarrow> nat \<Rightarrow> char \<Rightarrow> string \<Rightarrow> bool" where
  "ref_check P pre n cl t =
     (case match_token pre n cl t of None \<Rightarrow> True | Some (ds, rest) \<Rightarrow> P ds)"

fun refs_sat :: "(string \<Rightarrow> bool) \<Rightarrow> string \<Rightarrow> nat \<Rightarrow> char \<Rightarrow> string \<Rightarrow> bool" where
  "refs_sat P pre n cl [] = ref_check P pre n cl []"
| "refs_sat P pre n cl (c # cs) = (ref_check P pre n cl (c # cs) \<and> refs_sat P pre n cl cs)"

lemma ref_pattern_not_digit: "ref_pattern pre n cl \<Longrightarrow> \<not> is_digit cl"
  unfolding ref_pattern_def by (elim disjE conjE) simp_all

lemma digit_not_delimiter:
  "is_digit c \<Longrightarrow> c \<noteq> CHR ''['' \<and> c \<noteq> CHR '']'' \<and> c \<noteq> CHR ''}'' \<and> c \<noteq> CHR ''@''"
  by (auto simp: is_digit_def)

lemma digits_no_bracket:
  assumes "list_all is_digit ds"
  shows "CHR ''['' \<notin> set ds" and "CHR '']'' \<notin> set ds" and "CHR ''}'' \<notin> set ds"
    and "CHR ''@'' \<notin> set ds"
proof -
  have "\<And>c. c \<in> set ds \<Longrightarrow> is_digit c" using assms by (simp add: list_all_iff)
  then have "\<And>c. c \<in> set ds \<Longrightarrow>
      c \<noteq> CHR ''['' \<and> c \<noteq> CHR '']'' \<and> c \<noteq> CHR ''}'' \<and> c \<noteq> CHR ''@''"
    by (blast dest: digit_not_delimiter)
  then show "CHR ''['' \<notin> set ds" and "CHR '']'' \<notin> set ds" and "CHR ''}'' \<notin> set ds"
    and "CHR ''@'' \<notin> set ds"
    by blast+
qed

lemma ref_pattern_cases:
  assumes "ref_pattern pre n cl"
  obtains "pre = ''[Calculation_''" "n = 1" "cl = CHR '']''"
    | "pre = CHR ''@'' # ''{''" "n = 1" "cl = CHR ''}''"
    | "pre = ''[''" "n = 10" "cl = CHR '']''"
  using assms unfolding ref_pattern_def by blast

lemma token_no_open:
  assumes "ref_pattern pre n cl" and "list_all is_digit ds"
  shows "CHR ''['' \<notin> set (tl (pre @ ds @ [cl]))" and "CHR ''@'' \<notin> set (tl (pre @ ds @ [cl]))"
  using assms(1) digits_no_bracket [OF assms(2)]
  by (cases rule: ref_pattern_cases; simp)+

lemma token_no_close:
  assumes "ref_pattern pre n cl" and "list_all is_digit ds"
  shows "CHR '']'' \<notin> set (pre @ ds)" and "CHR ''}'' \<notin> set (pre @ ds)"
  using assms(1) digits_no_bracket [OF assms(2)]
  by (cases rule: ref_pattern_cases; simp)+

lemma token_head:
  assumes "ref_pattern pre n cl"
  shows "pre \<noteq> [] \<and> (hd pre = CHR ''['' \<or> hd pre = CHR ''@'')"
  using assms by (cases rule: ref_pattern_cases; simp)

lemma match_ref_iff:
  assumes "ref_pattern pre n cl"
  shows "match_token pre n cl s = Some (ds, rest) \<longleftrightarrow>
         s = (pre @ ds @ [cl]) @ rest \<and> list_all is_digit ds \<and> n \<le> length ds"
  using match_token_iff [OF ref_pattern_not_digit [OF assms]] by simp

lemma match_ref_Nil: "ref_pattern pre n cl \<Longrightarrow> match_token pre n cl [] = None"
proof (rule ccontr)
  assume p: "ref_pattern pre n cl" and "match_token pre n cl [] \<noteq> None"
  then obtain ds rest where "match_token pre n cl [] = Some (ds, rest)" by auto
  with p show False by (simp add: match_ref_iff)
qed

lemma refs_sat_iff:
  "refs_sat P pre n cl s \<longleftrightarrow> (\<forall>p t. s = p @ t \<longrightarrow> ref_check P pre n cl t)"
proof (induction s)
  case Nil
  show ?case by simp
next
  case (Cons c cs)
  have "(\<forall>p t. c # cs = p @ t \<longrightarrow> ref_check P pre n cl t) \<longleftrightarrow>
        ref_check P pre n cl (c # cs) \<and> (\<forall>p t. cs = p @ t \<longrightarrow> ref_check P pre n cl t)"
    (is "?L \<longleftrightarrow> ?H \<and> ?R")
  proof
    assume l: ?L
    have ?H using l [rule_format, of "[]" "c # cs"] by simp
    moreover have ?R
    proof (intro allI impI)
      fix p t assume "cs = p @ t"
      then have "c # cs = (c # p) @ t" by simp
      with l show "ref_check P pre n cl t" by blast
    qed
    ultimately show "?H \<and> ?R" ..
  next
    assume hr: "?H \<and> ?R"
    show ?L
    proof (intro allI impI)
      fix p t assume e: "c # cs = p @ t"
      show "ref_check P pre n cl t"
      proof (cases p)
        case Nil
        with e hr show ?thesis by simp
      next
        case (Cons a p')
        with e have "cs = p' @ t" by simp
        with hr show ?thesis by blast
      qed
    qed
  qed
  with Cons.IH show ?case by simp
qed

lemma refs_sat_mono:
  "refs_sat P pre n cl s \<Longrightarrow> (\<And>ds. P ds \<Longrightarrow> Q ds) \<Longrightarrow> refs_sat Q pre n cl s"
  by (auto simp: refs_sat_iff ref_check_def split: option.splits)

lemma refs_sat_suffix: "refs_sat P pre n cl (p @ s) \<Longrightarrow> refs_sat P pre n cl s"
  unfolding refs_sat_iff by (metis append.assoc)

lemma fst_emit [simp]: "fst (emit piece r) = piece @ fst r"
  by (cases r) simp

lemma snd_emit [simp]: "snd (emit piece r) = snd r"
  by (cases r) simp

lemma re_sub_common_prefix:
  assumes "ref_pattern pre n cl"
  shows "prefix w (fst (re_sub pre n cl M s cnt)) \<Longrightarrow> CHR ''['' \<notin> set w \<Longrightarrow> prefix w s"
  using assms
proof (induction pre n cl M s cnt arbitrary: w rule: re_sub.induct)
  case (1 pre n cl M cnt)
  then show ?case by simp
next
  case (2 pre n cl M c cs cnt)
  show ?case
  proof (cases "match_token pre n cl (c # cs)")
    case None
    with "2.prems" have p: "prefix w (c # fst (re_sub pre n cl M cs cnt))" by simp
    show ?thesis
    proof (cases w)
      case Nil
      then show ?thesis by simp
    next
      case (Cons a w')
      with p have a: "a = c" and "prefix w' (fst (re_sub pre n cl M cs cnt))" by simp_all
      moreover from Cons "2.prems" have "CHR ''['' \<notin> set w'" by simp
      ultimately have "prefix w' cs" using "2.IH"(1) [OF None] "2.prems"(3) by blast
      with a Cons show ?thesis by simp
    qed
  next
    case (Some x)
    obtain d rest where x: "x = (d, rest)" by (cases x)
    from Some x "2.prems"(3) have s: "c # cs = (pre @ d @ [cl]) @ rest"
      by (simp add: match_ref_iff)
    show ?thesis
    proof (cases "M d")
      case None
      with Some x "2.prems" have
        p: "prefix w ((pre @ d @ [cl]) @ fst (re_sub pre n cl M rest cnt))" by simp
      then consider "prefix w (pre @ d @ [cl])"
        | us where "w = (pre @ d @ [cl]) @ us" "prefix us (fst (re_sub pre n cl M rest cnt))"
        unfolding prefix_append by blast
      then show ?thesis
      proof cases
        case 1
        then show ?thesis unfolding s by (rule prefix_prefix)
      next
        case 2
        from 2(1) "2.prems"(2) have "CHR ''['' \<notin> set us" by simp
        with "2.IH"(2) [OF Some x [symmetric] None 2(2)] "2.prems"(3) have "prefix us rest"
          by blast
        with 2(1) show ?thesis unfolding s by simp
      qed
    next
      case (Some cap)
      with \<open>match_token pre n cl (c # cs) = Some x\<close> x "2.prems" have
        "prefix w (CHR ''['' # cap @ '']'' @ fst (re_sub pre n cl M rest (cnt + 1)))" by simp
      with "2.prems"(2) have "w = []" by (cases w) auto
      then show ?thesis by simp
    qed
  qed
qed

lemma match_ref_prefix:
  assumes "ref_pattern pre n cl" and "match_token pre n cl (u @ x) = Some (ds, r)"
    and "prefix (pre @ ds @ [cl]) u"
  shows "\<exists>r'. match_token pre n cl (u @ y) = Some (ds, r')"
proof -
  from assms(3) obtain u' where "u = (pre @ ds @ [cl]) @ u'" by (auto simp: prefix_def)
  then have "u @ y = (pre @ ds @ [cl]) @ (u' @ y)" by simp
  moreover from assms(1,2) have "list_all is_digit ds \<and> n \<le> length ds"
    by (simp add: match_ref_iff)
  ultimately have "match_token pre n cl (u @ y) = Some (ds, u' @ y)"
    by (simp add: match_ref_iff [OF assms(1)])
  then show ?thesis by blast
qed

lemma match_ref_within:
  assumes "ref_pattern pre n cl" and "match_token pre n cl (u @ x) = Some (ds, r)"
    and "u \<noteq> []" and "last u = CHR '']'' \<or> last u = CHR ''}''"
  shows "prefix (pre @ ds @ [cl]) u"
proof -
  from match_ref_iff [OF assms(1), THEN iffD1, OF assms(2)]
  have e: "u @ x = (pre @ ds @ [cl]) @ r" and d: "list_all is_digit ds"
    by blast+
  from e obtain us where
    us: "u = (pre @ ds @ [cl]) @ us \<and> us @ x = r \<or> u @ us = pre @ ds @ [cl] \<and> x = us @ r"
    unfolding append_eq_append_conv2 [of u x "pre @ ds @ [cl]" r] by blast
  have "(\<exists>v. u = (pre @ ds @ [cl]) @ v) \<or> (\<exists>v. u @ v = pre @ ds @ [cl] \<and> v \<noteq> [])"
  proof (cases "us = []")
    case True
    with us have "u = (pre @ ds @ [cl]) @ []" by auto
    then show ?thesis by blast
  next
    case False
    with us show ?thesis by blast
  qed
  then consider v where "u = (pre @ ds @ [cl]) @ v" | v where "u @ v = pre @ ds @ [cl]" "v \<noteq> []"
    by blast
  then show ?thesis
  proof cases
    case 1
    then show ?thesis by simp
  next
    case 2
    then have "butlast (u @ v) = pre @ ds" by (simp add: butlast_append)
    moreover from 2(2) assms(3) have "last u \<in> set (butlast (u @ v))"
      by (simp add: butlast_append)
    ultimately have "last u \<in> set (pre @ ds)" by simp
    with token_no_close [OF assms(1) d] assms(4) show ?thesis by auto
  qed
qed

lemma match_ref_copy:
  assumes "ref_pattern pre n cl" and "ref_pattern pre' n' cl'"
    and "match_token pre' n' cl' (c # fst (re_sub pre n cl M cs cnt)) = Some (ds, r)"
  shows "\<exists>r'. match_token pre' n' cl' (c # cs) = Some (ds, r')"
proof -
  let ?out = "fst (re_sub pre n cl M cs cnt)"
  let ?tok = "pre' @ ds @ [cl']"
  from match_ref_iff [OF assms(2), THEN iffD1, OF assms(3)]
  have e: "c # ?out = ?tok @ r" and d: "list_all is_digit ds"
    and n: "n' \<le> length ds"
    by blast+
  from token_head [OF assms(2)] obtain a w where tok: "?tok = a # w" by (cases pre') auto
  with e have a: "a = c" and w: "prefix w ?out" by (auto simp: prefix_def)
  from tok token_no_open(1) [OF assms(2) d] have "CHR ''['' \<notin> set w" by simp
  with re_sub_common_prefix [OF assms(1) w] have "prefix w cs" by blast
  then obtain r' where "cs = w @ r'" by (auto simp: prefix_def)
  with tok a have "c # cs = ?tok @ r'" by simp
  with d n have "match_token pre' n' cl' (c # cs) = Some (ds, r')"
    by (simp add: match_ref_iff [OF assms(2)])
  then show ?thesis by blast
qed

lemma match_ref_inside_token:
  assumes "ref_pattern pre n cl" and "ref_pattern pre' n' cl'" and "list_all is_digit d"
    and "pre @ d @ [cl] = v @ u" and "v \<noteq> []" and "u \<noteq> []"
  shows "match_token pre' n' cl' (u @ x) = None"
proof (rule ccontr)
  assume "match_token pre' n' cl' (u @ x) \<noteq> None"
  then obtain ds r where "match_token pre' n' cl' (u @ x) = Some (ds, r)" by auto
  from match_ref_iff [OF assms(2), THEN iffD1, OF this]
  have e: "u @ x = (pre' @ ds @ [cl']) @ r" by blast
  from token_head [OF assms(2)] obtain a p where p: "pre' = a # p"
    and a: "a = CHR ''['' \<or> a = CHR ''@''" by (cases pre') auto
  from e p assms(6) have "hd u = a" by (cases u) auto
  moreover from assms(4,5,6) have "hd u \<in> set (tl (pre @ d @ [cl]))"
    by (cases v; cases u) auto
  ultimately show False
    using a token_no_open [OF assms(1,3)] by auto
qed

text \<open>
  No display name of the calculation map, once put in brackets, contains one of the
  reference syntaxes.
\<close>

definition captions_plain :: "(string \<rightharpoonup> string) \<Rightarrow> bool" where
  "captions_plain calc_map = (\<forall>cap \<in> ran calc_map. \<not> spec_matches (''['' @ cap @ '']''))"

lemma ref_pattern_close: "ref_pattern pre n cl \<Longrightarrow> cl = CHR '']'' \<or> cl = CHR ''}''"
  unfolding ref_pattern_def by blast

lemma ref_token_spec:
  assumes "ref_pattern pre n cl" and "list_all is_digit ds" and "n \<le> length ds"
  shows "spec_reference (pre @ ds @ [cl])"
  using assms(1)
proof (cases rule: ref_pattern_cases)
  case 1
  with assms(2,3) have "ds \<noteq> [] \<and> pre @ ds @ [cl] = ''[Calculation_'' @ ds @ '']''" by auto
  with assms(2) show ?thesis unfolding spec_reference_def by blast
next
  case 2
  with assms(2,3) have "ds \<noteq> [] \<and> pre @ ds @ [cl] = (CHR ''@'' # ''{'') @ ds @ ''}''" by auto
  with assms(2) show ?thesis unfolding spec_reference_def by blast
next
  case 3
  with assms(2,3) have "10 \<le> length ds \<and> pre @ ds @ [cl] = ''['' @ ds @ '']''" by auto
  with assms(2) show ?thesis unfolding spec_reference_def by blast
qed

lemma match_ref_inside_caption:
  assumes "captions_plain M" and "M d = Some cap" and "ref_pattern pre n cl"
    and "''['' @ cap @ '']'' = v @ u" and "u \<noteq> []"
  shows "match_token pre n cl (u @ x) = None"
proof (rule ccontr)
  assume "match_token pre n cl (u @ x) \<noteq> None"
  then obtain ds r where m: "match_token pre n cl (u @ x) = Some (ds, r)" by auto
  from match_ref_iff [OF assms(3), THEN iffD1, OF m]
  have d: "list_all is_digit ds" and n: "n \<le> length ds" by blast+
  from assms(4,5) have "last u = last (''['' @ cap @ '']'')" by simp
  then have "last u = CHR '']''" by simp
  with match_ref_within [OF assms(3) m assms(5)] obtain u' where "u = (pre @ ds @ [cl]) @ u'"
    by (auto simp: prefix_def)
  with assms(4) have "''['' @ cap @ '']'' = v @ (pre @ ds @ [cl]) @ u'" by simp
  with ref_token_spec [OF assms(3) d n] have "spec_matches (''['' @ cap @ '']'')"
    unfolding spec_matches_def by blast
  moreover from assms(2) have "cap \<in> ran M" by (auto simp: ran_def)
  ultimately show False using assms(1) by (simp add: captions_plain_def)
qed

lemma refs_sat_append_iff:
  "refs_sat P pre n cl (a @ b) \<longleftrightarrow>
     (\<forall>v u. a = v @ u \<and> u \<noteq> [] \<longrightarrow> ref_check P pre n cl (u @ b)) \<and> refs_sat P pre n cl b"
proof (induction a)
  case Nil
  show ?case by simp
next
  case (Cons c a)
  have "(\<forall>v u. c # a = v @ u \<and> u \<noteq> [] \<longrightarrow> ref_check P pre n cl (u @ b)) \<longleftrightarrow>
        ref_check P pre n cl ((c # a) @ b) \<and>
        (\<forall>v u. a = v @ u \<and> u \<noteq> [] \<longrightarrow> ref_check P pre n cl (u @ b))"
    (is "?L \<longleftrightarrow> ?H \<and> ?R")
  proof
    assume l: ?L
    have ?H using l [rule_format, of "[]" "c # a"] by simp
    moreover have ?R
    proof (intro allI impI)
      fix v u assume "a = v @ u \<and> u \<noteq> []"
      then have "c # a = (c # v) @ u \<and> u \<noteq> []" by simp
      with l show "ref_check P pre n cl (u @ b)" by blast
    qed
    ultimately show "?H \<and> ?R" ..
  next
    assume hr: "?H \<and> ?R"
    show ?L
    proof (intro allI impI)
      fix v u assume e: "c # a = v @ u \<and> u \<noteq> []"
      show "ref_check P pre n cl (u @ b)"
      proof (cases v)
        case Nil
        with e hr show ?thesis by simp
      next
        case (Cons x v')
        with e have "a = v' @ u \<and> u \<noteq> []" by simp
        with hr show ?thesis by blast
      qed
    qed
  qed
  with Cons.IH show ?case by simp
qed

lemma refs_sat_head: "refs_sat P pre n cl s \<Longrightarrow> ref_check P pre n cl s"
  by (cases s) simp_all

lemma re_sub_refs_sat:
  assumes k': "ref_pattern pre' n' cl'"
  shows "captions_plain M \<Longrightarrow> ref_pattern pre n cl \<Longrightarrow> refs_sat P pre' n' cl' s \<Longrightarrow>
         refs_sat (\<lambda>ds. P ds \<and> ((pre', n', cl') = (pre, n, cl) \<longrightarrow> M ds = None)) pre' n' cl'
           (fst (re_sub pre n cl M s cnt))"
proof (induction pre n cl M s cnt rule: re_sub.induct)
  case (1 pre n cl M cnt)
  show ?case by (simp add: ref_check_def match_ref_Nil [OF k'])
next
  case (2 pre n cl M c cs cnt)
  let ?Q = "\<lambda>ds. P ds \<and> ((pre', n', cl') = (pre, n, cl) \<longrightarrow> M ds = None)"
  note caps = "2.prems"(1) and k = "2.prems"(2)
  from "2.prems"(3) have here: "ref_check P pre' n' cl' (c # cs)"
    and tail: "refs_sat P pre' n' cl' cs" by simp_all
  show ?case
  proof (cases "match_token pre n cl (c # cs)")
    case None
    have out: "fst (re_sub pre n cl M (c # cs) cnt) = c # fst (re_sub pre n cl M cs cnt)"
      by (simp add: None)
    have "refs_sat ?Q pre' n' cl' (fst (re_sub pre n cl M cs cnt))"
      by (rule "2.IH"(1) [OF None caps k tail])
    moreover have "ref_check ?Q pre' n' cl' (c # fst (re_sub pre n cl M cs cnt))"
    proof (cases "match_token pre' n' cl' (c # fst (re_sub pre n cl M cs cnt))")
      case None
      then show ?thesis by (simp add: ref_check_def)
    next
      case (Some x)
      obtain ds r where x: "x = (ds, r)" by (cases x)
      from match_ref_copy [OF k k' Some [unfolded x]] obtain r' where
        m: "match_token pre' n' cl' (c # cs) = Some (ds, r')" by blast
      with here have "P ds" by (simp add: ref_check_def)
      moreover have "(pre', n', cl') \<noteq> (pre, n, cl)" using m None by auto
      ultimately show ?thesis using Some x by (auto simp: ref_check_def)
    qed
    ultimately show ?thesis unfolding out by simp
  next
    case (Some x)
    obtain d rest where x: "x = (d, rest)" by (cases x)
    note m = Some [unfolded x]
    from match_ref_iff [OF k, THEN iffD1, OF m]
    have s: "c # cs = (pre @ d @ [cl]) @ rest" and dd: "list_all is_digit d" by blast+
    from "2.prems"(3) have rest: "refs_sat P pre' n' cl' rest"
      unfolding s by (rule refs_sat_suffix)
    show ?thesis
    proof (cases "M d")
      case None
      have out: "fst (re_sub pre n cl M (c # cs) cnt) =
          (pre @ d @ [cl]) @ fst (re_sub pre n cl M rest cnt)"
        by (simp add: Some x None)
      have ih: "refs_sat ?Q pre' n' cl' (fst (re_sub pre n cl M rest cnt))"
        by (rule "2.IH"(2) [OF Some x [symmetric] None caps k rest])
      have "ref_check ?Q pre' n' cl' (u @ fst (re_sub pre n cl M rest cnt))"
        if vu: "pre @ d @ [cl] = v @ u \<and> u \<noteq> []" for v u
      proof (cases "v = []")
        case False
        with vu match_ref_inside_token [OF k k' dd, of v u] show ?thesis
          by (simp add: ref_check_def)
      next
        case True
        with vu have u: "u = pre @ d @ [cl]" by simp
        show ?thesis
        proof (cases "match_token pre' n' cl' (u @ fst (re_sub pre n cl M rest cnt))")
          case None
          then show ?thesis by (simp add: ref_check_def)
        next
          case (Some y)
          obtain ds r where y: "y = (ds, r)" by (cases y)
          note m' = Some [unfolded y]
          have "last u = cl" by (simp add: u)
          with ref_pattern_close [OF k] have "last u = CHR '']'' \<or> last u = CHR ''}''" by simp
          from match_ref_within [OF k' m' _ this] vu have "prefix (pre' @ ds @ [cl']) u" by simp
          from match_ref_prefix [OF k' m' this, of rest] obtain r' where
            "match_token pre' n' cl' (u @ rest) = Some (ds, r')" by blast
          then have m'': "match_token pre' n' cl' (c # cs) = Some (ds, r')" by (simp add: s u)
          with here have "P ds" by (simp add: ref_check_def)
          moreover have "M ds = None" if "(pre', n', cl') = (pre, n, cl)"
            using that m'' m None by simp
          ultimately show ?thesis using Some y by (auto simp: ref_check_def)
        qed
      qed
      with ih show ?thesis unfolding out refs_sat_append_iff by blast
    next
      case (Some cap)
      have out: "fst (re_sub pre n cl M (c # cs) cnt) =
          (''['' @ cap @ '']'') @ fst (re_sub pre n cl M rest (cnt + 1))"
        by (simp add: \<open>match_token pre n cl (c # cs) = Some x\<close> x Some)
      have ih: "refs_sat ?Q pre' n' cl' (fst (re_sub pre n cl M rest (cnt + 1)))"
        by (rule "2.IH"(3) [OF \<open>match_token pre n cl (c # cs) = Some x\<close> x [symmetric] Some caps k rest])
      have "ref_check ?Q pre' n' cl' (u @ fst (re_sub pre n cl M rest (cnt + 1)))"
        if vu: "''['' @ cap @ '']'' = v @ u \<and> u \<noteq> []" for v u
        using match_ref_inside_caption [OF caps Some k', of v u] vu
        by (simp add: ref_check_def)
      with ih show ?thesis unfolding out refs_sat_append_iff by blast
    qed
  qed
qed

lemma re_sub_no_refs:
  "refs_sat (\<lambda>ds. False) pre n cl s \<Longrightarrow> re_sub pre n cl M s cnt = (s, cnt)"
proof (induction s)
  case Nil
  show ?case by simp
next
  case (Cons c cs)
  from Cons.prems have "match_token pre n cl (c # cs) = None"
    by (auto simp: ref_check_def split: option.splits)
  moreover from Cons have "re_sub pre n cl M cs cnt = (cs, cnt)" by simp
  ultimately show ?case by simp
qed

lemma re_sub_nonempty: "s \<noteq> [] \<Longrightarrow> fst (re_sub pre n cl M s cnt) \<noteq> []"
  by (cases s) (auto split: option.splits)

lemma ref_patterns [simp]:
  "ref_pattern ''[Calculation_'' 1 (CHR '']'')"
  "ref_pattern (CHR ''@'' # ''{'') 1 (CHR ''}'')"
  "ref_pattern ''['' 10 (CHR '']'')"
  "ref_pattern ''[Calculation_'' (Suc 0) (CHR '']'')"
  "ref_pattern (CHR ''@'' # ''{'') (Suc 0) (CHR ''}'')"
  by (simp_all add: ref_pattern_def)

lemma re_search_refs_sat:
  "re_search s \<longleftrightarrow>
     \<not> (refs_sat (\<lambda>ds. False) ''[Calculation_'' 1 (CHR '']'') s \<and>
        refs_sat (\<lambda>ds. False) (CHR ''@'' # ''{'') 1 (CHR ''}'') s \<and>
        refs_sat (\<lambda>ds. False) ''['' 10 (CHR '']'') s)"
proof (induction s)
  case Nil
  show ?case
    by (simp add: ref_here_def calc_pattern_def at_pattern_def direct_id_pattern_def
        ref_check_def match_ref_Nil)
next
  case (Cons c cs)
  have "ref_here (c # cs) \<longleftrightarrow>
     \<not> (ref_check (\<lambda>ds. False) ''[Calculation_'' 1 (CHR '']'') (c # cs) \<and>
        ref_check (\<lambda>ds. False) (CHR ''@'' # ''{'') 1 (CHR ''}'') (c # cs) \<and>
        ref_check (\<lambda>ds. False) ''['' 10 (CHR '']'') (c # cs))"
    by (auto simp: ref_here_def calc_pattern_def at_pattern_def direct_id_pattern_def
        ref_check_def split: option.splits)
  with Cons.IH show ?case by auto
qed

text \<open>
  A reference in one of the three syntaxes to the id \<open>ds\<close>, and the formulas all of whose
  embedded references have ids that are keys of the calculation map.
\<close>

definition spec_reference_to :: "string \<Rightarrow> string \<Rightarrow> bool" where
  "spec_reference_to ds t =
     (list_all is_digit ds \<and>
        ((ds \<noteq> [] \<and> t = ''[Calculation_'' @ ds @ '']'') \<or>
         (ds \<noteq> [] \<and> t = (CHR ''@'' # ''{'') @ ds @ ''}'') \<or>
         (10 \<le> length ds \<and> t = ''['' @ ds @ '']'')))"

definition references_resolvable :: "(string \<rightharpoonup> string) \<Rightarrow> string \<Rightarrow> bool" where
  "references_resolvable calc_map s =
     (\<forall>p t r ds. s = p @ t @ r \<and> spec_reference_to ds t \<longrightarrow> ds \<in> dom calc_map)"

lemma spec_reference_to_pattern:
  "spec_reference_to ds t \<longleftrightarrow>
     (\<exists>pre n cl. ((pre = ''[Calculation_'' \<and> n = 1 \<and> cl = CHR '']'') \<or>
                  (pre = CHR ''@'' # ''{'' \<and> n = 1 \<and> cl = CHR ''}'') \<or>
                  (pre = ''['' \<and> n = 10 \<and> cl = CHR '']'')) \<and>
        list_all is_digit ds \<and> n \<le> length ds \<and> t = pre @ ds @ [cl])"
  unfolding spec_reference_to_def by (auto simp: Suc_le_eq)

lemma references_resolvable_pattern:
  assumes "ref_pattern pre n cl"
  shows "references_resolvable M s \<Longrightarrow> refs_sat (\<lambda>ds. ds \<in> dom M) pre n cl s"
  unfolding refs_sat_iff
proof (intro allI impI)
  fix p t
  assume rr: "references_resolvable M s" and s: "s = p @ t"
  show "ref_check (\<lambda>ds. ds \<in> dom M) pre n cl t"
  proof (cases "match_token pre n cl t")
    case None
    then show ?thesis by (simp add: ref_check_def)
  next
    case (Some x)
    obtain ds r where x: "x = (ds, r)" by (cases x)
    from match_ref_iff [OF assms, THEN iffD1, OF Some [unfolded x]]
    have t: "t = (pre @ ds @ [cl]) @ r" and d: "list_all is_digit ds" and n: "n \<le> length ds"
      by blast+
    from assms d n have "spec_reference_to ds (pre @ ds @ [cl])"
      unfolding spec_reference_to_pattern ref_pattern_def by blast
    moreover from s t have "s = p @ (pre @ ds @ [cl]) @ r" by simp
    ultimately have "ds \<in> dom M" using rr unfolding references_resolvable_def by blast
    with Some x show ?thesis by (simp add: ref_check_def)
  qed
qed

lemma references_resolvable_iff:
  "references_resolvable M s \<longleftrightarrow>
     refs_sat (\<lambda>ds. ds \<in> dom M) ''[Calculation_'' 1 (CHR '']'') s \<and>
     refs_sat (\<lambda>ds. ds \<in> dom M) (CHR ''@'' # ''{'') 1 (CHR ''}'') s \<and>
     refs_sat (\<lambda>ds. ds \<in> dom M) ''['' 10 (CHR '']'') s"
proof
  assume "references_resolvable M s"
  then show "refs_sat (\<lambda>ds. ds \<in> dom M) ''[Calculation_'' 1 (CHR '']'') s \<and>
     refs_sat (\<lambda>ds. ds \<in> dom M) (CHR ''@'' # ''{'') 1 (CHR ''}'') s \<and>
     refs_sat (\<lambda>ds. ds \<in> dom M) ''['' 10 (CHR '']'') s"
    by (simp add: references_resolvable_pattern)
next
  assume a: "refs_sat (\<lambda>ds. ds \<in> dom M) ''[Calculation_'' 1 (CHR '']'') s \<and>
     refs_sat (\<lambda>ds. ds \<in> dom M) (CHR ''@'' # ''{'') 1 (CHR ''}'') s \<and>
     refs_sat (\<lambda>ds. ds \<in> dom M) ''['' 10 (CHR '']'') s"
  show "references_resolvable M s"
    unfolding references_resolvable_def
  proof (intro allI impI)
    fix p t r ds
    assume h: "s = p @ t @ r \<and> spec_reference_to ds t"
    then obtain pre n cl where k: "ref_pattern pre n cl" and d: "list_all is_digit ds"
      and n: "n \<le> length ds" and t: "t = pre @ ds @ [cl]"
      unfolding spec_reference_to_pattern ref_pattern_def by blast
    from k a have "refs_sat (\<lambda>ds. ds \<in> dom M) pre n cl s"
      unfolding ref_pattern_def by blast
    with h have "ref_check (\<lambda>ds. ds \<in> dom M) pre n cl (t @ r)"
      unfolding refs_sat_iff by blast
    moreover have "match_token pre n cl (t @ r) = Some (ds, r)"
      using d n t by (simp add: match_ref_iff [OF k])
    ultimately show "ds \<in> dom M" by (simp add: ref_check_def)
  qed
qed

lemma clean_passes_no_refs:
  assumes "references_resolvable M raw" and "captions_plain M"
  shows "\<not> re_search (fst (clean_passes raw M))"
proof -
  let ?dom = "\<lambda>ds. ds \<in> dom M"
  let ?no = "\<lambda>ds::string. False"
  define r1 where "r1 = re_sub ''[Calculation_'' 1 (CHR '']'') M raw 0"
  define r2 where "r2 = re_sub (CHR ''@'' # ''{'') 1 (CHR ''}'') M (fst r1) (snd r1)"
  define r3 where "r3 = re_sub ''['' 10 (CHR '']'') M (fst r2) (snd r2)"
  have cp: "clean_passes raw M = r3"
    by (simp add: clean_passes_def r1_def r2_def r3_def split_beta)
  have gone: "refs_sat ?no pre n cl (fst (re_sub pre n cl M s cnt))"
    if "ref_pattern pre n cl" and "refs_sat ?dom pre n cl s" for pre n cl s cnt
  proof -
    have "refs_sat (\<lambda>ds. ds \<in> dom M \<and> ((pre, n, cl) = (pre, n, cl) \<longrightarrow> M ds = None)) pre n cl
        (fst (re_sub pre n cl M s cnt))"
      by (rule re_sub_refs_sat [OF that(1) assms(2) that(1) that(2)])
    then show ?thesis by (rule refs_sat_mono) auto
  qed
  have kept: "refs_sat P pre' n' cl' (fst (re_sub pre n cl M s cnt))"
    if "ref_pattern pre n cl" and "ref_pattern pre' n' cl'" and "refs_sat P pre' n' cl' s"
    for P pre n cl pre' n' cl' s cnt
  proof -
    have "refs_sat (\<lambda>ds. P ds \<and> ((pre', n', cl') = (pre, n, cl) \<longrightarrow> M ds = None)) pre' n' cl'
        (fst (re_sub pre n cl M s cnt))"
      by (rule re_sub_refs_sat [OF that(2) assms(2) that(1) that(3)])
    then show ?thesis by (rule refs_sat_mono) auto
  qed
  from assms(1) have a1: "refs_sat ?dom ''[Calculation_'' 1 (CHR '']'') raw"
    and a2: "refs_sat ?dom (CHR ''@'' # ''{'') 1 (CHR ''}'') raw"
    and a3: "refs_sat ?dom ''['' 10 (CHR '']'') raw"
    unfolding references_resolvable_iff by blast+
  have b1: "refs_sat ?no ''[Calculation_'' 1 (CHR '']'') (fst r1)"
    unfolding r1_def by (rule gone [OF ref_patterns(1) a1])
  have b2: "refs_sat ?dom (CHR ''@'' # ''{'') 1 (CHR ''}'') (fst r1)"
    unfolding r1_def by (rule kept [OF ref_patterns(1) ref_patterns(2) a2])
  have b3: "refs_sat ?dom ''['' 10 (CHR '']'') (fst r1)"
    unfolding r1_def by (rule kept [OF ref_patterns(1) ref_patterns(3) a3])
  have c1: "refs_sat ?no ''[Calculation_'' 1 (CHR '']'') (fst r2)"
    unfolding r2_def by (rule kept [OF ref_patterns(2) ref_patterns(1) b1])
  have c2: "refs_sat ?no (CHR ''@'' # ''{'') 1 (CHR ''}'') (fst r2)"
    unfolding r2_def by (rule gone [OF ref_patterns(2) b2])
  have c3: "refs_sat ?dom ''['' 10 (CHR '']'') (fst r2)"
    unfolding r2_def by (rule kept [OF ref_patterns(2) ref_patterns(3) b3])
  have d1: "refs_sat ?no ''[Calculation_'' 1 (CHR '']'') (fst r3)"
    unfolding r3_def by (rule kept [OF ref_patterns(3) ref_patterns(1) c1])
  have d2: "refs_sat ?no (CHR ''@'' # ''{'') 1 (CHR ''}'') (fst r3)"
    unfolding r3_def by (rule kept [OF ref_patterns(3) ref_patterns(2) c2])
  have d3: "refs_sat ?no ''['' 10 (CHR '']'') (fst r3)"
    unfolding r3_def by (rule gone [OF ref_patterns(3) c3])
  from d1 d2 d3 show ?thesis unfolding cp re_search_refs_sat by blast
qed

lemma clean_no_refs:
  assumes "s \<noteq> []" and "\<not> re_search s"
  shows "clean_calculation_formula s M = (s, ''Success'')"
proof -
  from assms(2) have n1: "refs_sat (\<lambda>ds. False) ''[Calculation_'' 1 (CHR '']'') s"
    and n2: "refs_sat (\<lambda>ds. False) (CHR ''@'' # ''{'') 1 (CHR ''}'') s"
    and n3: "refs_sat (\<lambda>ds. False) ''['' 10 (CHR '']'') s"
    unfolding re_search_refs_sat by blast+
  have "clean_passes s M = (s, 0)"
    unfolding clean_passes_def
    by (simp only: re_sub_no_refs [OF n1] re_sub_no_refs [OF n2] re_sub_no_refs [OF n3]
        Let_def prod.case)
  with assms show ?thesis by (simp add: clean_calculation_formula_def)
qed

lemma clean_passes_nonempty: "raw \<noteq> [] \<Longrightarrow> fst (clean_passes raw M) \<noteq> []"
  by (simp add: clean_passes_def split_beta re_sub_nonempty)

text \<open>
  C2 as stated fails: the only reference of the formula has an id present in the map, but
  its display name is itself a reference once bracketed. The first cleaning returns
  \<open>[Calculation_2]\<close> as partially resolved, and cleaning that result again changes it.
\<close>

theorem cleaning_idempotent_counterexample:
  "references_resolvable [''1'' \<mapsto> ''Calculation_2'', ''2'' \<mapsto> ''Profit''] ''[Calculation_1]'' \<and>
   clean_calculation_formula ''[Calculation_1]'' [''1'' \<mapsto> ''Calculation_2'', ''2'' \<mapsto> ''Profit''] =
     (''[Calculation_2]'', ''Partially Resolved'') \<and>
   clean_calculation_formula ''[Calculation_2]'' [''1'' \<mapsto> ''Calculation_2'', ''2'' \<mapsto> ''Profit''] =
     (''[Profit]'', ''Success'')"
proof (intro conjI)
  show "references_resolvable [''1'' \<mapsto> ''Calculation_2'', ''2'' \<mapsto> ''Profit''] ''[Calculation_1]''"
    by (simp add: references_resolvable_iff ref_check_def match_token_def is_digit_def)
  show "clean_calculation_formula ''[Calculation_1]''
      [''1'' \<mapsto> ''Calculation_2'', ''2'' \<mapsto> ''Profit''] =
     (''[Calculation_2]'', ''Partially Resolved'')"
    by (simp add: clean_calculation_formula_def clean_passes_def match_token_def is_digit_def
        ref_here_def calc_pattern_def at_pattern_def direct_id_pattern_def)
  show "clean_calculation_formula ''[Calculation_2]''
      [''1'' \<mapsto> ''Calculation_2'', ''2'' \<mapsto> ''Profit''] =
     (''[Profit]'', ''Success'')"
    by (simp add: clean_calculation_formula_def clean_passes_def match_token_def is_digit_def
        ref_here_def calc_pattern_def at_pattern_def direct_id_pattern_def)
qed

text \<open>
  C2, amended. For every calculation map in which no display name, once bracketed,
  contains a reference syntax, and every non-empty formula whose embedded references all
  have ids that are keys of the map, cleaning the cleaned result again returns the same
  string with status \<open>Success\<close>.
\<close>

theorem cleaning_idempotent:
  assumes "raw \<noteq> []" and "references_resolvable calc_map raw" and "captions_plain calc_map"
  shows "clean_calculation_formula (fst (clean_calculation_formula raw calc_map)) calc_map =
           (fst (clean_calculation_formula raw calc_map), ''Success'')"
proof -
  have c: "fst (clean_calculation_formula raw calc_map) = fst (clean_passes raw calc_map)"
    using assms(1) by (simp add: clean_calculation_formula_def split_beta Let_def)
  show ?thesis
    unfolding c
    by (rule clean_no_refs [OF clean_passes_nonempty [OF assms(1)]
          clean_passes_no_refs [OF assms(2,3)]])
qed

theorem cleaning_idempotent_witness:
  "''[Calculation_1001]+[Calculation_1002]'' \<noteq> [] \<and>
   references_resolvable [''1001'' \<mapsto> ''Profit'', ''1002'' \<mapsto> ''Sales'']
     ''[Calculation_1001]+[Calculation_1002]'' \<and>
   captions_plain [''1001'' \<mapsto> ''Profit'', ''1002'' \<mapsto> ''Sales''] \<and>
   clean_calculation_formula ''[Calculation_1001]+[Calculation_1002]''
     [''1001'' \<mapsto> ''Profit'', ''1002'' \<mapsto> ''Sales''] = (''[Profit]+[Sales]'', ''Success'') \<and>
   clean_calculation_formula ''[Profit]+[Sales]''
     [''1001'' \<mapsto> ''Profit'', ''1002'' \<mapsto> ''Sales''] = (''[Profit]+[Sales]'', ''Success'')"
proof -
  let ?M = "[''1001'' \<mapsto> ''Profit'', ''1002'' \<mapsto> ''Sales'']"
  let ?raw = "''[Calculation_1001]+[Calculation_1002]''"
  have h1: "?raw \<noteq> []" by simp
  have h2: "references_resolvable ?M ?raw"
    by (simp add: references_resolvable_iff ref_check_def match_token_def is_digit_def)
  have "ran ?M = {''Sales'', ''Profit''}" by (simp add: ran_map_upd)
  moreover have "\<not> re_search ''[Profit]'' \<and> \<not> re_search ''[Sales]''"
    by (simp add: match_token_def is_digit_def ref_here_def calc_pattern_def at_pattern_def
        direct_id_pattern_def)
  ultimately have h3: "captions_plain ?M"
    by (simp add: captions_plain_def re_search_iff [symmetric])
  have c: "clean_calculation_formula ?raw ?M = (''[Profit]+[Sales]'', ''Success'')"
    by (simp add: clean_calculation_formula_def clean_passes_def match_token_def is_digit_def
        ref_here_def calc_pattern_def at_pattern_def direct_id_pattern_def)
  from cleaning_idempotent [OF h1 h2 h3]
  have "clean_calculation_formula ''[Profit]+[Sales]'' ?M = (''[Profit]+[Sales]'', ''Success'')"
    unfolding c by simp
  with h1 h2 h3 c show ?thesis by blast
qed

end
